theory Spec2Isabelle
  imports Complex_Main "HOL-Library.Log_Nat"
begin

section \<open>The synthetic incident generator\<close>

text \<open>
  A shallow embedding of \<^verbatim>\<open>AI_model/generate_synthetic_incidents.py\<close>.

  \<^item> Strings stay strings and the module's dictionaries are association lists read with
    \<open>getitem\<close>, which raises \<open>KeyError\<close> on a missing key as Python does.
  \<^item> The functions that take \<^verbatim>\<open>rng\<close> thread the generator explicitly and may raise:
    they have type \<open>'a gen\<close>, a state-and-error function on the generator.
  \<^item> Python's private names start with an underscore, which an Isabelle name cannot: the
    underscore is dropped (\<^verbatim>\<open>_build_record\<close> is \<open>build_record\<close>), and where the name then
    meets a field of the record the function has the suffix \<open>_fn\<close>
    (\<^verbatim>\<open>_detected_at\<close>, \<^verbatim>\<open>_root_cause\<close>, \<^verbatim>\<open>_sensor_measurement\<close>).
  \<^item> A \<^verbatim>\<open>datetime\<close> is the integer number of microseconds since the epoch; the
    \<^verbatim>\<open>isoformat()\<close> text of a UTC datetime determines that number and is determined by it, so
    the timestamp fields hold the number. The functions named after the source compute on
    timestamps with exact integer arithmetic; the functions with the prefix \<open>checked_\<close> are the
    same functions with the range of \<^verbatim>\<open>datetime\<close> (years 1 to 9999) and of \<^verbatim>\<open>timedelta\<close>, and
    raise \<open>OverflowError\<close> where Python does. The two agree wherever the clock is far enough
    from both ends of the range.
  \<^item> A \<^verbatim>\<open>float\<close> of a payload is the rational number the IEEE double stands for: \<open>fl\<close>
    rounds a rational to the nearest double, a tie to the even mantissa, and every float
    operation of the payload functions is the exact operation followed by \<open>fl\<close>. A float
    literal of a payload range is \<open>fl\<close> of the decimal the source writes. The exponent of a
    double is not bounded here: the payloads stay far from the largest and the smallest
    double. The weights and the probabilities stay the decimals the source writes.
\<close>

subsection \<open>Errors, the generator and its state\<close>

datatype py_error = KeyError | ValueError | IndexError | OverflowError

text \<open>
  The standard library's \<^verbatim>\<open>random.Random\<close> is not part of the repository. Its state is
  modelled as a tape of raw outcomes and a position: every call of a method of the generator
  (\<^verbatim>\<open>random\<close>, \<^verbatim>\<open>randint\<close>, \<^verbatim>\<open>choice\<close>, \<^verbatim>\<open>choices\<close>, \<^verbatim>\<open>uniform\<close>) reads the cell at the
  position and advances the position by one, so \<open>pos\<close> counts the draws made so far. The
  tape is arbitrary, so the model covers every sequence of outcomes a generator can give.
\<close>

record rng =
  tape :: "nat \<Rightarrow> nat"
  pos :: nat

type_synonym 'a gen = "rng \<Rightarrow> py_error + 'a \<times> rng"

definition ret :: "'a \<Rightarrow> 'a gen" where
  "ret a g = Inr (a, g)"

definition throw :: "py_error \<Rightarrow> 'a gen" where
  "throw e g = Inl e"

definition gbind :: "'a gen \<Rightarrow> ('a \<Rightarrow> 'b gen) \<Rightarrow> 'b gen" where
  "gbind m k g = (case m g of Inl e \<Rightarrow> Inl e | Inr (a, g') \<Rightarrow> k a g')"

definition getitem :: "('k \<times> 'v) list \<Rightarrow> 'k \<Rightarrow> 'v gen" where
  "getitem d k = (case map_of d k of None \<Rightarrow> throw KeyError | Some v \<Rightarrow> ret v)"

definition draw :: "nat gen" where
  "draw g = Inr (tape g (pos g), g\<lparr>pos := Suc (pos g)\<rparr>)"

text \<open>\<^verbatim>\<open>rng.random()\<close>: a multiple of \<open>2\<^sup>-\<^sup>5\<^sup>3\<close> in \<open>[0, 1)\<close>.\<close>

definition random_py :: "rat gen" where
  "random_py = gbind draw (\<lambda>x. ret (of_nat (x mod 2 ^ 53) / 2 ^ 53))"

text \<open>
  \<^verbatim>\<open>rng._randbelow(n)\<close>: a number below \<open>n\<close>. (The library rejects and redraws raw bits
  until one is below \<open>n\<close>; the cell holds the accepted outcome.)
\<close>

definition randbelow :: "nat \<Rightarrow> nat gen" where
  "randbelow n = gbind draw (\<lambda>x. ret (x mod n))"

text \<open>\<^verbatim>\<open>rng.choice(seq)\<close>: \<^verbatim>\<open>IndexError\<close> on an empty sequence.\<close>

definition choice :: "'a list \<Rightarrow> 'a gen" where
  "choice seq =
     (if length seq = 0 then throw IndexError
      else gbind (randbelow (length seq)) (\<lambda>i. ret (seq ! i)))"

text \<open>\<^verbatim>\<open>rng.randint(a, b)\<close> is \<^verbatim>\<open>randrange(a, b + 1)\<close>: \<^verbatim>\<open>ValueError\<close> on an empty range.\<close>

definition randint :: "int \<Rightarrow> int \<Rightarrow> int gen" where
  "randint a b =
     (let width = b + 1 - a
      in if 0 < width then gbind (randbelow (nat width)) (\<lambda>r. ret (a + int r))
         else throw ValueError)"

text \<open>
  Floats. \<open>round_half_even\<close> is the nearest integer, a tie to the even one. \<open>exponent x\<close>
  is the \<open>e\<close> with \<open>2\<^sup>e \<le> x < 2\<^sup>e\<^sup>+\<^sup>1\<close> for a positive \<open>x\<close>, and \<open>fl x\<close> the double nearest to
  \<open>x\<close>: \<open>x\<close> rounded to a multiple of \<open>2\<^sup>e\<^sup>-\<^sup>5\<^sup>2\<close>, which leaves 53 bits.
\<close>

definition round_half_even :: "rat \<Rightarrow> int" where
  "round_half_even y =
     (let f = \<lfloor>y\<rfloor>; d = y - of_int f
      in if d < 1 / 2 then f else if 1 / 2 < d then f + 1 else if even f then f else f + 1)"

definition exponent :: "rat \<Rightarrow> int" where
  "exponent x = (if 1 \<le> x then bitlen \<lfloor>x\<rfloor> - 1 else - bitlen (\<lceil>1 / x\<rceil> - 1))"

definition fl :: "rat \<Rightarrow> rat" where
  "fl x =
     (if x = 0 then 0
      else let ulp = 2 powi (exponent \<bar>x\<bar> - 52)
           in of_int (round_half_even (x / ulp)) * ulp)"

text \<open>
  \<^verbatim>\<open>rng.uniform(a, b)\<close> is \<^verbatim>\<open>a + (b - a) * random()\<close>: a subtraction, a product and a sum
  of floats.
\<close>

definition uniform :: "rat \<Rightarrow> rat \<Rightarrow> rat gen" where
  "uniform a b = gbind random_py (\<lambda>u. ret (fl (a + fl (fl (b - a) * u))))"

text \<open>\<^verbatim>\<open>itertools.accumulate\<close>: the running sums.\<close>

fun accumulate_from :: "rat \<Rightarrow> rat list \<Rightarrow> rat list" where
  "accumulate_from s [] = []"
| "accumulate_from s (w # ws) = (s + w) # accumulate_from (s + w) ws"

definition accumulate :: "rat list \<Rightarrow> rat list" where
  "accumulate ws = accumulate_from 0 ws"

text \<open>\<^verbatim>\<open>bisect.bisect_right(a, x, lo, hi)\<close>.\<close>

function bisect_right :: "rat list \<Rightarrow> rat \<Rightarrow> nat \<Rightarrow> nat \<Rightarrow> nat" where
  "bisect_right a x lo hi =
     (if lo < hi
      then (let mid = (lo + hi) div 2
            in if x < a ! mid then bisect_right a x lo mid
               else bisect_right a x (mid + 1) hi)
      else lo)"
  by pat_completeness auto
termination
  by (relation "measure (\<lambda>(a, x, lo, hi). hi - lo)") auto

declare bisect_right.simps [simp del]

text \<open>
  \<^verbatim>\<open>rng.choices(population, weights=weights, k=1)[0]\<close>: one weighted pick, by bisection of
  the cumulative weights at \<^verbatim>\<open>random() * total\<close> with \<^verbatim>\<open>hi = n - 1\<close>.
\<close>

definition choices :: "'a list \<Rightarrow> rat list \<Rightarrow> 'a gen" where
  "choices population weights =
     (let n = length population; cum_weights = accumulate weights
      in if length cum_weights \<noteq> n then throw ValueError
         else if cum_weights = [] then throw IndexError
         else (let total = last cum_weights
               in if total \<le> 0 then throw ValueError
                  else gbind random_py
                         (\<lambda>u. ret (population ! bisect_right cum_weights (u * total) 0 (n - 1)))))"

text \<open>\<^verbatim>\<open>random.Random(seed)\<close>: the library's seeding, \<open>mt\<close>, maps a seed to its tape.\<close>

definition Random :: "(int \<Rightarrow> nat \<Rightarrow> nat) \<Rightarrow> int \<Rightarrow> rng" where
  "Random mt seed = \<lparr>tape = mt seed, pos = 0\<rparr>"

text \<open>
  \<^verbatim>\<open>round(x, n)\<close> of a float: the decimal with \<open>n\<close> digits nearest to the exact value of
  \<open>x\<close>, a tie to the even digit, and then the double nearest to this decimal.
\<close>

definition round_py :: "rat \<Rightarrow> nat \<Rightarrow> rat" where
  "round_py x n = fl (of_int (round_half_even (x * 10 ^ n)) / 10 ^ n)"

text \<open>\<^verbatim>\<open>timedelta(minutes=m)\<close>, in microseconds.\<close>

definition minutes :: "int \<Rightarrow> int" where
  "minutes m = m * 60000000"

subsection \<open>The static tables\<close>

definition CATEGORIES :: "string list" where
  "CATEGORIES = [''Traffic'', ''Cybersecurity'', ''Public Safety'', ''Utilities'', ''Environmental'']"

definition SEVERITIES :: "string list" where
  "SEVERITIES = [''low'', ''medium'', ''high'', ''critical'']"

definition STATUSES :: "string list" where
  "STATUSES = [''open'', ''acknowledged'', ''resolved'']"

definition LOCATIONS :: "(string \<times> string list) list" where
  "LOCATIONS =
     [(''Traffic'', [''Central Station'', ''Ring Road East'', ''Airport Tunnel'', ''Harbour Bridge'']),
      (''Cybersecurity'',
         [''Datacenter West'', ''Civic Cloud Cluster'', ''Identity Gateway'', ''E-services API'']),
      (''Public Safety'', [''Museum Quarter'', ''City Plaza'', ''Riverfront'', ''Stadium District'']),
      (''Utilities'',
         [''Water Treatment Plant'', ''North Power Substation'', ''Waste Processing Hub'',
          ''District Heating Loop'']),
      (''Environmental'',
         [''Canal District'', ''Urban Forest'', ''Industrial Park'', ''Riverside Wetlands''])]"

definition SENSOR_IDS :: "(string \<times> string list) list" where
  "SENSOR_IDS =
     [(''Traffic'', [''traffic-001'', ''traffic-014'', ''traffic-027'', ''traffic-042'']),
      (''Cybersecurity'', [''sec-201'', ''sec-237'', ''sec-448'', ''sec-509'']),
      (''Public Safety'', [''ps-118'', ''ps-204'', ''ps-317'', ''ps-466'']),
      (''Utilities'', [''util-031'', ''util-066'', ''util-082'', ''util-119'']),
      (''Environmental'', [''env-441'', ''env-552'', ''env-618'', ''env-733''])]"

definition ROOT_CAUSES :: "string list" where
  "ROOT_CAUSES =
     [''Hardware fault'', ''Human error'', ''External attack'', ''Weather related'',
      ''Scheduled maintenance'', ''Supply disruption'', ''Sensor malfunction'',
      ''Network congestion'']"

definition TITLES :: "(string \<times> string) list" where
  "TITLES =
     [(''Traffic'', ''Traffic congestion alert''),
      (''Cybersecurity'', ''Unauthorized access attempt''),
      (''Public Safety'', ''Public safety anomaly''),
      (''Utilities'', ''Utilities infrastructure warning''),
      (''Environmental'', ''Environmental quality deviation'')]"

definition DESCRIPTIONS :: "(string \<times> string) list" where
  "DESCRIPTIONS =
     [(''Traffic'', ''Generated from city mobility telemetry feed.''),
      (''Cybersecurity'', ''Generated from perimeter security analytics.''),
      (''Public Safety'', ''Generated from surveillance anomaly detection.''),
      (''Utilities'', ''Generated from utilities SCADA monitoring.''),
      (''Environmental'', ''Generated from distributed environmental sensors.'')]"

definition IMPACTS :: "(string \<times> string) list" where
  "IMPACTS =
     [(''Traffic'', ''Potential delays across connected routes.''),
      (''Cybersecurity'', ''Possible disruption to digital citizen services.''),
      (''Public Safety'', ''On-site response team recommended.''),
      (''Utilities'', ''Utility delivery stability under review.''),
      (''Environmental'', ''Environmental compliance threshold exceeded.'')]"

definition SEVERITY_WEIGHTS :: "(string \<times> rat list) list" where
  "SEVERITY_WEIGHTS =
     [(''Traffic'', [18 / 100, 39 / 100, 31 / 100, 12 / 100]),
      (''Cybersecurity'', [1 / 10, 3 / 10, 37 / 100, 23 / 100]),
      (''Public Safety'', [22 / 100, 33 / 100, 3 / 10, 15 / 100]),
      (''Utilities'', [28 / 100, 38 / 100, 24 / 100, 1 / 10]),
      (''Environmental'', [34 / 100, 4 / 10, 2 / 10, 6 / 100])]"

definition STATUS_WEIGHTS :: "(string \<times> rat list) list" where
  "STATUS_WEIGHTS =
     [(''low'', [55 / 100, 25 / 100, 2 / 10]),
      (''medium'', [33 / 100, 33 / 100, 34 / 100]),
      (''high'', [22 / 100, 32 / 100, 46 / 100]),
      (''critical'', [12 / 100, 28 / 100, 6 / 10])]"

definition FALSE_POSITIVE_PROBABILITY :: "(string \<times> rat) list" where
  "FALSE_POSITIVE_PROBABILITY =
     [(''low'', 26 / 100), (''medium'', 14 / 100), (''high'', 7 / 100), (''critical'', 3 / 100)]"

text \<open>
  The inner dictionaries of the two range tables have fixed keys and values of two kinds
  (integer bounds, float bounds): they are records.
\<close>

record traffic_ranges =
  vehicle_count :: "int \<times> int"
  avg_speed_kmh :: "rat \<times> rat"

record cyber_ranges =
  failed_attempts :: "int \<times> int"
  unique_ips :: "int \<times> int"

definition TRAFFIC_PAYLOAD_RANGES :: "(string \<times> traffic_ranges) list" where
  "TRAFFIC_PAYLOAD_RANGES =
     [(''low'', \<lparr>vehicle_count = (240, 720), avg_speed_kmh = (fl 26, fl 38)\<rparr>),
      (''medium'', \<lparr>vehicle_count = (680, 1280), avg_speed_kmh = (fl 16, fl 26)\<rparr>),
      (''high'', \<lparr>vehicle_count = (980, 1560), avg_speed_kmh = (fl 10, fl 18)\<rparr>),
      (''critical'', \<lparr>vehicle_count = (1280, 1850), avg_speed_kmh = (fl 4, fl 11)\<rparr>)]"

definition CYBER_PAYLOAD_RANGES :: "(string \<times> cyber_ranges) list" where
  "CYBER_PAYLOAD_RANGES =
     [(''low'', \<lparr>failed_attempts = (45, 140), unique_ips = (4, 12)\<rparr>),
      (''medium'', \<lparr>failed_attempts = (140, 360), unique_ips = (8, 24)\<rparr>),
      (''high'', \<lparr>failed_attempts = (360, 760), unique_ips = (18, 44)\<rparr>),
      (''critical'', \<lparr>failed_attempts = (720, 1200), unique_ips = (32, 70)\<rparr>)]"

definition PUBLIC_SAFETY_ANOMALY_RANGE :: "(string \<times> rat \<times> rat) list" where
  "PUBLIC_SAFETY_ANOMALY_RANGE =
     [(''low'', (fl (32 / 100), fl (5 / 10))), (''medium'', (fl (5 / 10), fl (7 / 10))),
      (''high'', (fl (7 / 10), fl (88 / 100))), (''critical'', (fl (85 / 100), fl (97 / 100)))]"

definition UTILITIES_CHLORINE_RANGE :: "(string \<times> rat \<times> rat) list" where
  "UTILITIES_CHLORINE_RANGE =
     [(''low'', (fl (8 / 10), fl (13 / 10))), (''medium'', (fl (6 / 10), fl (16 / 10))),
      (''high'', (fl (45 / 100), fl (18 / 10))), (''critical'', (fl (3 / 10), fl 2))]"

definition ENVIRONMENTAL_PM25_RANGE :: "(string \<times> rat \<times> rat) list" where
  "ENVIRONMENTAL_PM25_RANGE =
     [(''low'', (fl 14, fl 32)), (''medium'', (fl 28, fl 60)), (''high'', (fl 54, fl 96)),
      (''critical'', (fl 90, fl 150))]"

subsection \<open>The records\<close>

text \<open>A payload value is an \<^verbatim>\<open>int\<close> or a \<^verbatim>\<open>float\<close>.\<close>

datatype number = IntVal int | FloatVal rat

text \<open>
  The dictionary \<^verbatim>\<open>_sensor_measurement\<close> returns has five fixed keys; the fields carry the
  prefix \<open>sm_\<close> because \<^verbatim>\<open>status\<close> is a field of the incident too.
\<close>

record measurement =
  sm_sensor_id :: string
  sm_type :: string
  sm_status :: string
  sm_captured_at :: int
  sm_payload :: "(string \<times> number) list"

record IncidentRecord =
  record_id :: int
  title :: string
  category :: string
  severity :: string
  status :: string
  detected_at :: int
  acknowledged_at :: "int option"
  resolved_at :: "int option"
  location :: string
  description :: string
  impact :: string
  root_cause :: "string option"
  sensor_measurement :: measurement

subsection \<open>The generator's functions\<close>

definition pick_severity :: "string \<Rightarrow> string gen" where
  "pick_severity category' = gbind (getitem SEVERITY_WEIGHTS category') (choices SEVERITIES)"

definition pick_status :: "string \<Rightarrow> string gen" where
  "pick_status severity' = gbind (getitem STATUS_WEIGHTS severity') (choices STATUSES)"

text \<open>
  \<^verbatim>\<open>_detected_at\<close> reads the wall clock, \<^verbatim>\<open>datetime.now(UTC)\<close>: the reading is the
  argument \<open>now\<close>.
\<close>

definition detected_at_fn :: "int \<Rightarrow> int \<Rightarrow> int gen" where
  "detected_at_fn now index =
     (let window_days = 90
      in gbind (randint 0 (window_days * 24 * 60))
           (\<lambda>minutes_offset. let base = now in ret (base - minutes (minutes_offset + index * 3))))"

definition ack_bounds :: "(string \<times> int \<times> int) list" where
  "ack_bounds = [(''low'', (45, 360)), (''medium'', (30, 180)), (''high'', (10, 90)), (''critical'', (3, 45))]"

definition res_bounds :: "(string \<times> int \<times> int) list" where
  "res_bounds =
     [(''low'', (240, 1440)), (''medium'', (180, 960)), (''high'', (120, 720)), (''critical'', (60, 480))]"

definition acknowledged_and_resolved ::
  "string \<Rightarrow> string \<Rightarrow> int \<Rightarrow> (int option \<times> int option) gen" where
  "acknowledged_and_resolved status' severity' detected =
     (if status' = ''open'' then ret (None, None)
      else gbind (getitem ack_bounds severity') (\<lambda>(ack_min, ack_max).
           gbind (randint ack_min ack_max) (\<lambda>ack_minutes.
           let acknowledged = detected + minutes ack_minutes
           in if status' = ''acknowledged'' then ret (Some acknowledged, None)
              else gbind (getitem res_bounds severity') (\<lambda>(res_min, res_max).
                   gbind (randint res_min res_max) (\<lambda>resolve_minutes.
                   let resolved = acknowledged + minutes resolve_minutes
                   in ret (Some acknowledged, Some resolved))))))"

definition root_cause_fn :: "string \<Rightarrow> bool \<Rightarrow> string option gen" where
  "root_cause_fn severity' false_positive =
     (if false_positive then ret None else gbind (choice ROOT_CAUSES) (\<lambda>c. ret (Some c)))"

definition choose_location :: "string \<Rightarrow> string gen" where
  "choose_location category' = gbind (getitem LOCATIONS category') choice"

definition choose_title :: "string \<Rightarrow> string gen" where
  "choose_title category' = getitem TITLES category'"

definition choose_description :: "string \<Rightarrow> string gen" where
  "choose_description category' = getitem DESCRIPTIONS category'"

definition choose_impact :: "string \<Rightarrow> string \<Rightarrow> string gen" where
  "choose_impact category' severity' =
     gbind (getitem IMPACTS category') (\<lambda>base.
       if severity' \<in> {''high'', ''critical''} then ret (base @ '' Escalation priority elevated.'')
       else ret base)"

definition sensor_status :: "string \<Rightarrow> bool \<Rightarrow> string gen" where
  "sensor_status severity' false_positive =
     (if false_positive then choices [''healthy'', ''warning''] [7 / 10, 3 / 10]
      else if severity' = ''critical'' then choices [''alert'', ''warning''] [8 / 10, 2 / 10]
      else if severity' = ''high''
        then choices [''alert'', ''warning'', ''healthy''] [5 / 10, 35 / 100, 15 / 100]
      else if severity' = ''medium''
        then choices [''warning'', ''healthy'', ''alert''] [55 / 100, 35 / 100, 1 / 10]
      else choices [''healthy'', ''warning''] [75 / 100, 25 / 100])"

definition traffic_payload :: "string \<Rightarrow> (string \<times> number) list gen" where
  "traffic_payload severity' =
     gbind (getitem TRAFFIC_PAYLOAD_RANGES severity') (\<lambda>bounds.
     gbind (randint (fst (vehicle_count bounds)) (snd (vehicle_count bounds))) (\<lambda>vehicles.
     gbind (uniform (fst (avg_speed_kmh bounds)) (snd (avg_speed_kmh bounds))) (\<lambda>x.
     let avg_speed = round_py x 1
     in ret [(''vehicle_count'', IntVal vehicles), (''avg_speed_kmh'', FloatVal avg_speed)])))"

definition cyber_payload :: "string \<Rightarrow> (string \<times> number) list gen" where
  "cyber_payload severity' =
     gbind (getitem CYBER_PAYLOAD_RANGES severity') (\<lambda>bounds.
     gbind (randint (fst (failed_attempts bounds)) (snd (failed_attempts bounds))) (\<lambda>failed.
     gbind (randint (fst (unique_ips bounds)) (snd (unique_ips bounds))) (\<lambda>ips.
     ret [(''failed_attempts'', IntVal failed), (''unique_ips'', IntVal ips)])))"

definition public_safety_payload :: "string \<Rightarrow> (string \<times> number) list gen" where
  "public_safety_payload severity' =
     gbind (getitem PUBLIC_SAFETY_ANOMALY_RANGE severity') (\<lambda>(lo, hi).
     gbind (uniform lo hi) (\<lambda>x.
     let anomaly = round_py x 2
     in ret [(''anomaly_score'', FloatVal anomaly)]))"

definition utilities_payload :: "string \<Rightarrow> (string \<times> number) list gen" where
  "utilities_payload severity' =
     gbind (getitem UTILITIES_CHLORINE_RANGE severity') (\<lambda>(lo, hi).
     gbind (uniform lo hi) (\<lambda>x.
     let chlorine = round_py x 2
     in gbind (uniform (fl (65 / 10)) (fl (83 / 10))) (\<lambda>y.
        let ph = round_py y 2
        in ret [(''chlorine_ppm'', FloatVal chlorine), (''ph'', FloatVal ph)])))"

definition environmental_payload :: "string \<Rightarrow> (string \<times> number) list gen" where
  "environmental_payload severity' =
     gbind (getitem ENVIRONMENTAL_PM25_RANGE severity') (\<lambda>(lo, hi).
     gbind (uniform lo hi) (\<lambda>x.
     let pm25 = round_py x 1
     in ret [(''pm2_5'', FloatVal pm25)]))"

definition sensor_payload :: "string \<Rightarrow> string \<Rightarrow> (string \<times> number) list gen" where
  "sensor_payload category' severity' =
     (if category' = ''Traffic'' then traffic_payload severity'
      else if category' = ''Cybersecurity'' then cyber_payload severity'
      else if category' = ''Public Safety'' then public_safety_payload severity'
      else if category' = ''Utilities'' then utilities_payload severity'
      else environmental_payload severity')"

definition sensor_measurement_fn :: "string \<Rightarrow> string \<Rightarrow> int \<Rightarrow> bool \<Rightarrow> measurement gen" where
  "sensor_measurement_fn category' severity' detected false_positive =
     gbind (getitem SENSOR_IDS category') (\<lambda>ids.
     gbind (choice ids) (\<lambda>sensor_id.
     gbind (sensor_status severity' false_positive) (\<lambda>status'.
     gbind (randint 1 12) (\<lambda>m.
     let captured_at = detected - minutes m
     in gbind (sensor_payload category' severity') (\<lambda>payload.
        ret \<lparr>sm_sensor_id = sensor_id, sm_type = category', sm_status = status',
             sm_captured_at = captured_at, sm_payload = payload\<rparr>)))))"

text \<open>
  \<^verbatim>\<open>_build_record\<close>, in the order Python evaluates it: the locals first, then the
  arguments of the constructor from left to right. \<open>build_record_fp\<close> also returns the local
  \<^verbatim>\<open>false_positive\<close>, which the record does not store; \<open>build_record\<close> drops it.
\<close>

definition build_record_fp :: "int \<Rightarrow> int \<Rightarrow> (IncidentRecord \<times> bool) gen" where
  "build_record_fp now index =
     gbind (choice CATEGORIES) (\<lambda>category'.
     gbind (pick_severity category') (\<lambda>severity'.
     gbind (pick_status severity') (\<lambda>status'.
     gbind (detected_at_fn now index) (\<lambda>detected_at_dt.
     gbind random_py (\<lambda>u.
     gbind (getitem FALSE_POSITIVE_PROBABILITY severity') (\<lambda>p.
     let false_positive = u < p
     in gbind (acknowledged_and_resolved status' severity' detected_at_dt)
          (\<lambda>(acknowledged, resolved).
        gbind (choose_title category') (\<lambda>title'.
        gbind (choose_location category') (\<lambda>location'.
        gbind (choose_description category') (\<lambda>description'.
        gbind (choose_impact category' severity') (\<lambda>impact'.
        gbind (root_cause_fn severity' false_positive) (\<lambda>root_cause'.
        gbind (sensor_measurement_fn category' severity' detected_at_dt false_positive)
          (\<lambda>measurement'.
        ret (\<lparr>record_id = 1000 + index, title = title', category = category',
               severity = severity', status = status', detected_at = detected_at_dt,
               acknowledged_at = acknowledged, resolved_at = resolved, location = location',
               description = description', impact = impact', root_cause = root_cause',
               sensor_measurement = measurement'\<rparr>, false_positive))))))))))))))"

definition build_record :: "int \<Rightarrow> int \<Rightarrow> IncidentRecord gen" where
  "build_record now index = gbind (build_record_fp now index) (\<lambda>(r, false_positive). ret r)"

text \<open>
  The list comprehension of \<^verbatim>\<open>generate_dataset\<close>: one record per index, the generator
  threaded from each to the next. \<open>clock i\<close> is what \<^verbatim>\<open>datetime.now(UTC)\<close> returns while
  record \<open>i\<close> is built.
\<close>

fun build_all :: "(int \<Rightarrow> int \<Rightarrow> 'a gen) \<Rightarrow> (nat \<Rightarrow> int) \<Rightarrow> nat list \<Rightarrow> 'a list gen" where
  "build_all f clock [] = ret []"
| "build_all f clock (i # is) =
     gbind (f (clock i) (int i)) (\<lambda>r. gbind (build_all f clock is) (\<lambda>rs. ret (r # rs)))"

definition run :: "rng \<Rightarrow> 'a gen \<Rightarrow> py_error + 'a" where
  "run g m = (case m g of Inl e \<Rightarrow> Inl e | Inr (a, g') \<Rightarrow> Inr a)"

definition generate_dataset_fp ::
  "(nat \<Rightarrow> int) \<Rightarrow> (int \<Rightarrow> nat \<Rightarrow> nat) \<Rightarrow> int \<Rightarrow> int \<Rightarrow> py_error + (IncidentRecord \<times> bool) list" where
  "generate_dataset_fp clock mt size' seed =
     run (Random mt seed) (build_all build_record_fp clock [0..<nat size'])"

definition generate_dataset ::
  "(nat \<Rightarrow> int) \<Rightarrow> (int \<Rightarrow> nat \<Rightarrow> nat) \<Rightarrow> int \<Rightarrow> int \<Rightarrow> py_error + IncidentRecord list" where
  "generate_dataset clock mt size' seed =
     run (Random mt seed) (build_all build_record clock [0..<nat size'])"

subsection \<open>Outcomes of a generator function\<close>

text \<open>
  \<open>advance_by k g\<close> is the generator after \<open>k\<close> more draws. \<open>post m g P\<close> says that \<open>m\<close>,
  run from \<open>g\<close>, raises nothing and that its value and the generator it leaves satisfy \<open>P\<close>.
\<close>

definition advance_by :: "nat \<Rightarrow> rng \<Rightarrow> rng" where
  "advance_by k g = g\<lparr>pos := pos g + k\<rparr>"

definition post :: "'a gen \<Rightarrow> rng \<Rightarrow> ('a \<Rightarrow> rng \<Rightarrow> bool) \<Rightarrow> bool" where
  "post m g P = (case m g of Inl e \<Rightarrow> False | Inr (a, g') \<Rightarrow> P a g')"

subsection \<open>What the properties speak of\<close>

text \<open>The number a payload value stands for.\<close>

fun value_of :: "number \<Rightarrow> rat" where
  "value_of (IntVal i) = of_int i"
| "value_of (FloatVal x) = x"

text \<open>
  The bounds the module registers for a field of the payload of a category at a severity:
  the entry of the category's range table at the severity. The field \<^verbatim>\<open>ph\<close> has no table,
  so no bounds are registered for it.
\<close>

definition registered_bounds :: "string \<Rightarrow> string \<Rightarrow> string \<Rightarrow> (rat \<times> rat) option" where
  "registered_bounds category' severity' field =
     (if category' = ''Traffic'' then
        (case map_of TRAFFIC_PAYLOAD_RANGES severity' of
           None \<Rightarrow> None
         | Some b \<Rightarrow>
             if field = ''vehicle_count''
               then Some (of_int (fst (vehicle_count b)), of_int (snd (vehicle_count b)))
             else if field = ''avg_speed_kmh'' then Some (avg_speed_kmh b)
             else None)
      else if category' = ''Cybersecurity'' then
        (case map_of CYBER_PAYLOAD_RANGES severity' of
           None \<Rightarrow> None
         | Some b \<Rightarrow>
             if field = ''failed_attempts''
               then Some (of_int (fst (failed_attempts b)), of_int (snd (failed_attempts b)))
             else if field = ''unique_ips''
               then Some (of_int (fst (unique_ips b)), of_int (snd (unique_ips b)))
             else None)
      else if category' = ''Public Safety'' then
        (if field = ''anomaly_score'' then map_of PUBLIC_SAFETY_ANOMALY_RANGE severity' else None)
      else if category' = ''Utilities'' then
        (if field = ''chlorine_ppm'' then map_of UTILITIES_CHLORINE_RANGE severity' else None)
      else if category' = ''Environmental'' then
        (if field = ''pm2_5'' then map_of ENVIRONMENTAL_PM25_RANGE severity' else None)
      else None)"

definition in_bounds :: "string \<Rightarrow> string \<Rightarrow> string \<times> number \<Rightarrow> bool" where
  "in_bounds category' severity' entry =
     (case registered_bounds category' severity' (fst entry) of
        None \<Rightarrow> False
      | Some (lo, hi) \<Rightarrow> lo \<le> value_of (snd entry) \<and> value_of (snd entry) \<le> hi)"

text \<open>
  The bounds a field does stay in: those of its table, and for \<^verbatim>\<open>ph\<close> the two literals
  6.5 and 8.3 of \<^verbatim>\<open>_utilities_payload\<close>, at every severity.
\<close>

definition field_in_range :: "string \<Rightarrow> string \<Rightarrow> string \<times> number \<Rightarrow> bool" where
  "field_in_range category' severity' entry =
     (if fst entry = ''ph''
      then fl (65 / 10) \<le> value_of (snd entry) \<and> value_of (snd entry) \<le> fl (83 / 10)
      else in_bounds category' severity' entry)"

text \<open>The keys of the payload of a category, in the order of the dictionary.\<close>

definition payload_fields :: "string \<Rightarrow> string list" where
  "payload_fields category' =
     (if category' = ''Traffic'' then [''vehicle_count'', ''avg_speed_kmh'']
      else if category' = ''Cybersecurity'' then [''failed_attempts'', ''unique_ips'']
      else if category' = ''Public Safety'' then [''anomaly_score'']
      else if category' = ''Utilities'' then [''chlorine_ppm'', ''ph'']
      else [''pm2_5''])"

definition payload_ok :: "string \<Rightarrow> string \<Rightarrow> (string \<times> number) list \<Rightarrow> bool" where
  "payload_ok category' severity' payload =
     (map fst payload = payload_fields category' \<and>
      list_all (field_in_range category' severity') payload)"

text \<open>
  The draws one record makes: nine in every record (category, severity, status, detection
  offset, false-positive draw, location, sensor, sensor status, capture offset), one for each
  of the acknowledgement and the resolution the status reaches, one for the root cause unless
  the record is a false positive, and one or two for the payload.
\<close>

definition payload_draws :: "string \<Rightarrow> nat" where
  "payload_draws category' =
     (if category' \<in> {''Traffic'', ''Cybersecurity'', ''Utilities''} then 2 else 1)"

definition status_draws :: "string \<Rightarrow> nat" where
  "status_draws status' = (if status' = ''open'' then 0 else if status' = ''acknowledged'' then 1 else 2)"

definition draws_of :: "IncidentRecord \<Rightarrow> bool \<Rightarrow> nat" where
  "draws_of r false_positive =
     9 + status_draws (status r) + (if false_positive then 0 else 1) + payload_draws (category r)"

text \<open>
  A range that a uniform draw rounded to \<open>n\<close> decimals stays in: the least draw, at
  \<^verbatim>\<open>random()\<close> = 0, rounds to no less than the lower end, and the greatest, at
  \<^verbatim>\<open>random()\<close> = \<open>1 - 2\<^sup>-\<^sup>5\<^sup>3\<close>, to no more than the upper end.
\<close>

definition float_range :: "nat \<Rightarrow> rat \<Rightarrow> rat \<Rightarrow> bool" where
  "float_range n lo hi =
     (0 \<le> lo \<and> lo \<le> hi \<and>
      lo \<le> round_py (fl (lo + fl (fl (hi - lo) * 0))) n \<and>
      round_py (fl (lo + fl (fl (hi - lo) * ((2 ^ 53 - 1) / 2 ^ 53)))) n \<le> hi)"

definition good_range :: "nat \<Rightarrow> (rat \<times> rat) option \<Rightarrow> bool" where
  "good_range n b = (case b of None \<Rightarrow> False | Some (lo, hi) \<Rightarrow> float_range n lo hi)"

text \<open>
  What a later reading of the clock does to a record: the four timestamps move by the
  difference \<open>d\<close>, and nothing else changes. \<open>gmap\<close> applies a function to the result of
  a generator function.
\<close>

definition gmap :: "('a \<Rightarrow> 'b) \<Rightarrow> 'a gen \<Rightarrow> 'b gen" where
  "gmap h m = gbind m (\<lambda>a. ret (h a))"

definition shift_measurement :: "int \<Rightarrow> measurement \<Rightarrow> measurement" where
  "shift_measurement d m = m\<lparr>sm_captured_at := sm_captured_at m + d\<rparr>"

definition shift_record :: "int \<Rightarrow> IncidentRecord \<Rightarrow> IncidentRecord" where
  "shift_record d r =
     r\<lparr>detected_at := detected_at r + d,
       acknowledged_at := map_option (\<lambda>t. t + d) (acknowledged_at r),
       resolved_at := map_option (\<lambda>t. t + d) (resolved_at r),
       sensor_measurement := shift_measurement d (sensor_measurement r)\<rparr>"

subsection \<open>The range of \<^verbatim>\<open>datetime\<close>\<close>

text \<open>
  The functions above compute on timestamps as on integers. A \<^verbatim>\<open>datetime\<close> holds the years
  1 to 9999 only and a \<^verbatim>\<open>timedelta\<close> at most 999999999 days, and Python raises
  \<^verbatim>\<open>OverflowError\<close> when the arithmetic leaves these ranges. The functions below are the
  four functions of the module that compute timestamps, \<^verbatim>\<open>_build_record\<close> and
  \<^verbatim>\<open>generate_dataset\<close> again, with these checks where the source has the arithmetic; they
  carry the prefix \<open>checked_\<close>.
\<close>

text \<open>
  \<^verbatim>\<open>datetime.min\<close> and \<^verbatim>\<open>datetime.max\<close> in UTC, in microseconds since the epoch:
  0001-01-01T00:00:00 and 9999-12-31T23:59:59.999999.
\<close>

definition datetime_min :: int where
  "datetime_min = - 62135596800000000"

definition datetime_max :: int where
  "datetime_max = 253402300799999999"

text \<open>\<^verbatim>\<open>timedelta(minutes=m)\<close>: at most 999999999 days on either side.\<close>

definition timedelta_minutes :: "int \<Rightarrow> int gen" where
  "timedelta_minutes m =
     (if - 1439999998560 \<le> m \<and> m \<le> 1439999999999 then ret (minutes m)
      else throw OverflowError)"

text \<open>\<^verbatim>\<open>t + d\<close> and \<^verbatim>\<open>t - d\<close> of a \<^verbatim>\<open>datetime\<close> and a \<^verbatim>\<open>timedelta\<close>.\<close>

definition datetime_add :: "int \<Rightarrow> int \<Rightarrow> int gen" where
  "datetime_add t d =
     (if datetime_min \<le> t + d \<and> t + d \<le> datetime_max then ret (t + d)
      else throw OverflowError)"

definition datetime_sub :: "int \<Rightarrow> int \<Rightarrow> int gen" where
  "datetime_sub t d =
     (if datetime_min \<le> t - d \<and> t - d \<le> datetime_max then ret (t - d)
      else throw OverflowError)"

definition checked_detected_at :: "int \<Rightarrow> int \<Rightarrow> int gen" where
  "checked_detected_at now index =
     (let window_days = 90
      in gbind (randint 0 (window_days * 24 * 60))
           (\<lambda>minutes_offset. let base = now
              in gbind (timedelta_minutes (minutes_offset + index * 3)) (datetime_sub base)))"

definition checked_acknowledged_and_resolved ::
  "string \<Rightarrow> string \<Rightarrow> int \<Rightarrow> (int option \<times> int option) gen" where
  "checked_acknowledged_and_resolved status' severity' detected =
     (if status' = ''open'' then ret (None, None)
      else gbind (getitem ack_bounds severity') (\<lambda>(ack_min, ack_max).
           gbind (randint ack_min ack_max) (\<lambda>ack_minutes.
           gbind (timedelta_minutes ack_minutes) (\<lambda>d.
           gbind (datetime_add detected d) (\<lambda>acknowledged.
           if status' = ''acknowledged'' then ret (Some acknowledged, None)
           else gbind (getitem res_bounds severity') (\<lambda>(res_min, res_max).
                gbind (randint res_min res_max) (\<lambda>resolve_minutes.
                gbind (timedelta_minutes resolve_minutes) (\<lambda>d'.
                gbind (datetime_add acknowledged d') (\<lambda>resolved.
                ret (Some acknowledged, Some resolved))))))))))"

definition checked_sensor_measurement ::
  "string \<Rightarrow> string \<Rightarrow> int \<Rightarrow> bool \<Rightarrow> measurement gen" where
  "checked_sensor_measurement category' severity' detected false_positive =
     gbind (getitem SENSOR_IDS category') (\<lambda>ids.
     gbind (choice ids) (\<lambda>sensor_id.
     gbind (sensor_status severity' false_positive) (\<lambda>status'.
     gbind (randint 1 12) (\<lambda>m.
     gbind (timedelta_minutes m) (\<lambda>d.
     gbind (datetime_sub detected d) (\<lambda>captured_at.
     gbind (sensor_payload category' severity') (\<lambda>payload.
     ret \<lparr>sm_sensor_id = sensor_id, sm_type = category', sm_status = status',
          sm_captured_at = captured_at, sm_payload = payload\<rparr>)))))))"

definition checked_build_record :: "int \<Rightarrow> int \<Rightarrow> IncidentRecord gen" where
  "checked_build_record now index =
     gbind (choice CATEGORIES) (\<lambda>category'.
     gbind (pick_severity category') (\<lambda>severity'.
     gbind (pick_status severity') (\<lambda>status'.
     gbind (checked_detected_at now index) (\<lambda>detected_at_dt.
     gbind random_py (\<lambda>u.
     gbind (getitem FALSE_POSITIVE_PROBABILITY severity') (\<lambda>p.
     let false_positive = u < p
     in gbind (checked_acknowledged_and_resolved status' severity' detected_at_dt)
          (\<lambda>(acknowledged, resolved).
        gbind (choose_title category') (\<lambda>title'.
        gbind (choose_location category') (\<lambda>location'.
        gbind (choose_description category') (\<lambda>description'.
        gbind (choose_impact category' severity') (\<lambda>impact'.
        gbind (root_cause_fn severity' false_positive) (\<lambda>root_cause'.
        gbind (checked_sensor_measurement category' severity' detected_at_dt false_positive)
          (\<lambda>measurement'.
        ret \<lparr>record_id = 1000 + index, title = title', category = category',
             severity = severity', status = status', detected_at = detected_at_dt,
             acknowledged_at = acknowledged, resolved_at = resolved, location = location',
             description = description', impact = impact', root_cause = root_cause',
             sensor_measurement = measurement'\<rparr>)))))))))))))"

definition checked_generate_dataset ::
  "(nat \<Rightarrow> int) \<Rightarrow> (int \<Rightarrow> nat \<Rightarrow> nat) \<Rightarrow> int \<Rightarrow> int \<Rightarrow> py_error + IncidentRecord list" where
  "checked_generate_dataset clock mt size' seed =
     run (Random mt seed) (build_all checked_build_record clock [0..<nat size'])"

text \<open>
  The two ways a generator function ends: \<open>outcome m g P Q\<close> says that \<open>m\<close> from the state
  \<open>g\<close> returns a result and a state that satisfy \<open>P\<close>, or raises an error that satisfies \<open>Q\<close>.
\<close>

definition outcome ::
  "'a gen \<Rightarrow> rng \<Rightarrow> ('a \<Rightarrow> rng \<Rightarrow> bool) \<Rightarrow> (py_error \<Rightarrow> bool) \<Rightarrow> bool" where
  "outcome m g P Q = (case m g of Inl e \<Rightarrow> Q e | Inr (a, g') \<Rightarrow> P a g')"

text \<open>
  The clock reads late enough and early enough for record \<open>index\<close>: no timestamp of the record
  can leave the range of \<^verbatim>\<open>datetime\<close>. The detection is at most 129600 + 3 \<open>index\<close> minutes
  before the reading and the capture at most twelve minutes before the detection; the
  resolution is at most 360 + 1440 minutes after the detection.
\<close>

definition clock_in_range :: "int \<Rightarrow> int \<Rightarrow> bool" where
  "clock_in_range now index =
     (datetime_min + minutes (129612 + 3 * index) \<le> now \<and> now + minutes 1800 \<le> datetime_max)"

section \<open>Properties\<close>

subsection \<open>Floats\<close>

lemma round_half_even_bounds: "y - 1 / 2 \<le> of_int (round_half_even y) \<and> of_int (round_half_even y) \<le> y + 1 / 2"
  unfolding round_half_even_def Let_def by (auto; linarith)

lemma round_half_even_of_int [simp]: "round_half_even (of_int k) = k"
  by (simp add: round_half_even_def)

lemma round_half_even_zero [simp]: "round_half_even 0 = 0"
  by (simp add: round_half_even_def)

lemma round_half_even_numeral [simp]: "round_half_even (numeral k) = numeral k"
  by (simp add: round_half_even_def)

lemma round_half_even_mono:
  assumes "x \<le> y"
  shows "round_half_even x \<le> round_half_even y"
proof (cases "\<lfloor>x\<rfloor> = \<lfloor>y\<rfloor>")
  case True
  with assms show ?thesis
    unfolding round_half_even_def Let_def by auto
next
  case False
  with assms have lt: "\<lfloor>x\<rfloor> < \<lfloor>y\<rfloor>" using floor_mono[OF assms] by linarith
  have "round_half_even x \<le> \<lfloor>x\<rfloor> + 1"
    unfolding round_half_even_def Let_def by auto
  moreover have "\<lfloor>y\<rfloor> \<le> round_half_even y"
    unfolding round_half_even_def Let_def by auto
  ultimately show ?thesis using lt by linarith
qed

lemma exponent_bounds:
  assumes "0 < x"
  shows "2 powi (exponent x) \<le> x \<and> x < 2 powi (exponent x + 1)"
proof (cases "1 \<le> x")
  case True
  then have p: "0 < \<lfloor>x\<rfloor>" by linarith
  from bitlen_bounds[OF p] have b: "2 ^ nat (bitlen \<lfloor>x\<rfloor> - 1) \<le> \<lfloor>x\<rfloor>" "\<lfloor>x\<rfloor> < 2 ^ nat (bitlen \<lfloor>x\<rfloor>)"
    by simp_all
  from p have b1: "1 \<le> bitlen \<lfloor>x\<rfloor>" by (simp add: bitlen_alt_def)
  have e: "exponent x = bitlen \<lfloor>x\<rfloor> - 1" using True by (simp add: exponent_def)
  have lo: "(2::rat) ^ nat (bitlen \<lfloor>x\<rfloor> - 1) \<le> x"
  proof -
    have "(2::rat) ^ nat (bitlen \<lfloor>x\<rfloor> - 1) = of_int (2 ^ nat (bitlen \<lfloor>x\<rfloor> - 1))" by simp
    also have "\<dots> \<le> of_int \<lfloor>x\<rfloor>" using b(1) by (simp only: of_int_le_iff)
    also have "\<dots> \<le> x" by linarith
    finally show ?thesis .
  qed
  have hi: "x < (2::rat) ^ nat (bitlen \<lfloor>x\<rfloor>)"
  proof -
    from b(2) have "\<lfloor>x\<rfloor> + 1 \<le> 2 ^ nat (bitlen \<lfloor>x\<rfloor>)" by simp
    then have "of_int (\<lfloor>x\<rfloor> + 1) \<le> (of_int (2 ^ nat (bitlen \<lfloor>x\<rfloor>)) :: rat)"
      by (simp only: of_int_le_iff)
    then have "of_int (\<lfloor>x\<rfloor> + 1) \<le> (2 :: rat) ^ nat (bitlen \<lfloor>x\<rfloor>)" by simp
    moreover have "x < of_int (\<lfloor>x\<rfloor> + 1)" by linarith
    ultimately show ?thesis by linarith
  qed
  from lo hi b1 show ?thesis unfolding e by (simp add: power_int_def)
next
  case False
  with assms have x1: "x < 1" by simp
  let ?c = "\<lceil>1 / x\<rceil>"
  from assms x1 have y: "1 < 1 / x" by simp
  then have c2: "2 \<le> ?c" by linarith
  then have p: "0 < ?c - 1" by simp
  let ?j = "bitlen (?c - 1)"
  from p have j1: "1 \<le> ?j" by (simp add: bitlen_alt_def)
  from bitlen_bounds[OF p] have b: "2 ^ nat (?j - 1) \<le> ?c - 1" "?c - 1 < 2 ^ nat ?j"
    by simp_all
  have e: "exponent x = - ?j" using False by (simp add: exponent_def)
  have up: "1 / x \<le> 2 ^ nat ?j"
  proof -
    from b(2) have "?c \<le> 2 ^ nat ?j" by simp
    then have "of_int ?c \<le> (of_int (2 ^ nat ?j) :: rat)" by (simp only: of_int_le_iff)
    then have "of_int ?c \<le> (2 :: rat) ^ nat ?j" by simp
    moreover have "1 / x \<le> of_int ?c" by linarith
    ultimately show ?thesis by linarith
  qed
  have dn: "(2::rat) ^ nat (?j - 1) < 1 / x"
  proof -
    from b(1) have "of_int (2 ^ nat (?j - 1)) \<le> (of_int (?c - 1) :: rat)" by (simp only: of_int_le_iff)
    then have "(2 :: rat) ^ nat (?j - 1) \<le> of_int (?c - 1)" by simp
    moreover have "of_int (?c - 1) < 1 / x" by linarith
    ultimately show ?thesis by linarith
  qed
  have lo: "2 powi (- ?j) \<le> x"
  proof -
    from up assms have "1 \<le> x * 2 ^ nat ?j" by (simp add: field_simps)
    then have "1 / 2 ^ nat ?j \<le> x" by (simp add: field_simps)
    with j1 show ?thesis by (simp add: power_int_def inverse_eq_divide power_one_over)
  qed
  have hi: "x < 2 powi (- ?j + 1)"
  proof -
    from dn assms have "x * 2 ^ nat (?j - 1) < 1" by (simp add: field_simps)
    then have "x < 1 / 2 ^ nat (?j - 1)" by (simp add: field_simps)
    moreover from j1 have "2 powi (- ?j + 1) = (1 :: rat) / 2 ^ nat (?j - 1)"
      by (cases "?j = 1") (simp_all add: power_int_def inverse_eq_divide power_one_over)
    ultimately show ?thesis by simp
  qed
  from lo hi show ?thesis unfolding e by simp
qed

lemma ulp_pos: "0 < (2::rat) powi e"
  by simp

lemma fl_nonneg:
  assumes "0 \<le> x"
  shows "0 \<le> fl x"
proof (cases "x = 0")
  case True
  then show ?thesis by (simp add: fl_def)
next
  case False
  let ?u = "(2::rat) powi (exponent \<bar>x\<bar> - 52)"
  have "0 \<le> x / ?u" using assms by simp
  then have "round_half_even 0 \<le> round_half_even (x / ?u)" by (rule round_half_even_mono)
  then have "0 \<le> round_half_even (x / ?u)" by (simp add: round_half_even_def)
  then show ?thesis using False by (simp add: fl_def Let_def)
qed

lemma fl_bounds:
  assumes "0 < x"
  shows "2 powi (exponent x) \<le> fl x \<and> fl x \<le> 2 powi (exponent x + 1)"
proof -
  let ?e = "exponent x"
  let ?u = "(2::rat) powi (?e - 52)"
  from exponent_bounds[OF assms] have b: "2 powi ?e \<le> x" "x < 2 powi (?e + 1)" by simp_all
  have u: "0 < ?u" by simp
  have "?e = 52 + (?e - 52)" by linarith
  then have "(2::rat) powi ?e = 2 powi (52 + (?e - 52))" by (rule arg_cong)
  also have "\<dots> = 2 powi 52 * ?u" by (rule power_int_add) simp
  finally have e1: "(2::rat) powi ?e = 2 ^ 52 * ?u" by simp
  have "?e + 1 = 53 + (?e - 52)" by linarith
  then have "(2::rat) powi (?e + 1) = 2 powi (53 + (?e - 52))" by (simp only:)
  also have "\<dots> = 2 powi 53 * ?u" by (rule power_int_add) simp
  finally have e2: "(2::rat) powi (?e + 1) = 2 ^ 53 * ?u" by simp
  from b(1) u have "of_int (2 ^ 52) \<le> x / ?u" unfolding e1 by (simp add: field_simps)
  from round_half_even_mono[OF this] have lo: "2 ^ 52 \<le> round_half_even (x / ?u)" by simp
  from b(2) u have "x / ?u \<le> of_int (2 ^ 53)" unfolding e2 by (simp add: field_simps)
  from round_half_even_mono[OF this] have hi: "round_half_even (x / ?u) \<le> 2 ^ 53" by simp
  have f: "fl x = of_int (round_half_even (x / ?u)) * ?u"
    using assms by (simp add: fl_def Let_def)
  from lo have "of_int (2 ^ 52) \<le> (of_int (round_half_even (x / ?u)) :: rat)"
    by (simp only: of_int_le_iff)
  then have "2 ^ 52 * ?u \<le> of_int (round_half_even (x / ?u)) * ?u"
    using u by (simp add: mult_right_mono)
  moreover from hi have "(of_int (round_half_even (x / ?u)) :: rat) \<le> of_int (2 ^ 53)"
    by (simp only: of_int_le_iff)
  then have "of_int (round_half_even (x / ?u)) * ?u \<le> 2 ^ 53 * ?u"
    using u by (simp add: mult_right_mono)
  ultimately show ?thesis unfolding f e1 e2 by simp
qed

lemma fl_mono:
  assumes "0 \<le> x" "x \<le> y"
  shows "fl x \<le> fl y"
proof (cases "x = 0")
  case True
  with assms fl_nonneg[of y] show ?thesis by (simp add: fl_def)
next
  case False
  with assms have x: "0 < x" and y: "0 < y" by simp_all
  from exponent_bounds[OF x] exponent_bounds[OF y] assms(2)
  have lt: "(2::rat) powi (exponent x) < 2 powi (exponent y + 1)" by linarith
  have le: "exponent x \<le> exponent y"
  proof (rule ccontr)
    assume "\<not> exponent x \<le> exponent y"
    then have "exponent y + 1 \<le> exponent x" by simp
    then have "(2::rat) powi (exponent y + 1) \<le> 2 powi (exponent x)"
      by (intro power_int_increasing) simp_all
    with lt show False by simp
  qed
  show ?thesis
  proof (cases "exponent x = exponent y")
    case True
    let ?u = "(2::rat) powi (exponent x - 52)"
    have "x / ?u \<le> y / ?u" using assms(2) by (simp add: divide_right_mono)
    from round_half_even_mono[OF this]
    have "(of_int (round_half_even (x / ?u)) :: rat) \<le> of_int (round_half_even (y / ?u))"
      by (simp only: of_int_le_iff)
    then have "of_int (round_half_even (x / ?u)) * ?u \<le> of_int (round_half_even (y / ?u)) * ?u"
      by (simp add: mult_right_mono)
    then show ?thesis using x y True by (simp add: fl_def Let_def)
  next
    case False
    with le have "exponent x + 1 \<le> exponent y" by simp
    then have "(2::rat) powi (exponent x + 1) \<le> 2 powi (exponent y)"
      by (intro power_int_increasing) simp_all
    with fl_bounds[OF x] fl_bounds[OF y] show ?thesis by linarith
  qed
qed


subsection \<open>The rules of \<open>post\<close>\<close>

lemma advance_by_simps [simp]:
  "pos (advance_by k g) = pos g + k" "tape (advance_by k g) = tape g"
  "advance_by j (advance_by k g) = advance_by (k + j) g" "advance_by 0 g = g"
  by (simp_all add: advance_by_def)

lemma post_ret [simp]: "post (ret a) g P = P a g"
  by (simp add: post_def ret_def)

lemma post_throw [simp]: "post (throw e) g P = False"
  by (simp add: post_def throw_def)

lemma post_gbind: "post (gbind m k) g P = post m g (\<lambda>a g'. post (k a) g' P)"
  by (simp add: post_def gbind_def split: sum.splits)

lemma post_mono: "post m g P \<Longrightarrow> (\<And>a g'. P a g' \<Longrightarrow> Q a g') \<Longrightarrow> post m g Q"
  by (auto simp: post_def split: sum.splits)

lemma post_bindI: "post m g P \<Longrightarrow> (\<And>a g'. P a g' \<Longrightarrow> post (k a) g' Q) \<Longrightarrow> post (gbind m k) g Q"
  unfolding post_gbind by (erule post_mono)

lemma post_draw: "post draw g P = P (tape g (pos g)) (advance_by 1 g)"
  by (simp add: post_def draw_def advance_by_def)

lemma post_random_py:
  "post random_py g P = P (of_nat (tape g (pos g) mod 2 ^ 53) / 2 ^ 53) (advance_by 1 g)"
  by (simp add: random_py_def post_gbind post_draw)

lemma post_randbelow: "post (randbelow n) g P = P (tape g (pos g) mod n) (advance_by 1 g)"
  by (simp add: randbelow_def post_gbind post_draw)

lemma post_choice:
  "seq \<noteq> [] \<Longrightarrow> post (choice seq) g P = P (seq ! (tape g (pos g) mod length seq)) (advance_by 1 g)"
  by (simp add: choice_def post_gbind post_randbelow)

lemma post_randint:
  "a \<le> b \<Longrightarrow> post (randint a b) g P = P (a + int (tape g (pos g) mod nat (b + 1 - a))) (advance_by 1 g)"
  by (simp add: randint_def post_gbind post_randbelow)

lemma post_uniform:
  "post (uniform a b) g P =
     P (fl (a + fl (fl (b - a) * (of_nat (tape g (pos g) mod 2 ^ 53) / 2 ^ 53)))) (advance_by 1 g)"
  by (simp add: uniform_def post_gbind post_random_py)

lemma post_getitem: "map_of d k = Some v \<Longrightarrow> post (getitem d k) g P = P v g"
  by (simp add: getitem_def)

lemma length_accumulate_from: "length (accumulate_from s ws) = length ws"
  by (induction ws arbitrary: s) auto

lemma bisect_right_bounds: "lo \<le> hi \<Longrightarrow> lo \<le> bisect_right a x lo hi \<and> bisect_right a x lo hi \<le> hi"
proof (induction a x lo hi rule: bisect_right.induct)
  case (1 a x lo hi)
  let ?mid = "(lo + hi) div 2"
  show ?case
  proof (cases "lo < hi")
    case False
    then have "bisect_right a x lo hi = lo" by (subst bisect_right.simps) simp
    then show ?thesis using 1(3) by simp
  next
    case lt: True
    then have mid: "lo \<le> ?mid" "?mid + 1 \<le> hi" by auto
    show ?thesis
    proof (cases "x < a ! ?mid")
      case True
      then have eq: "bisect_right a x lo hi = bisect_right a x lo ?mid"
        using lt by (subst bisect_right.simps) (simp add: Let_def)
      from 1(1)[OF lt refl True mid(1)] mid show ?thesis unfolding eq by linarith
    next
      case False
      then have eq: "bisect_right a x lo hi = bisect_right a x (?mid + 1) hi"
        using lt by (subst bisect_right.simps) (simp add: Let_def)
      from 1(2)[OF lt refl False mid(2)] mid show ?thesis unfolding eq by linarith
    qed
  qed
qed

lemma post_choices:
  assumes "length ws = length population" "population \<noteq> []" "0 < last (accumulate ws)"
  shows "post (choices population ws) g P =
    P (population ! bisect_right (accumulate ws) (of_nat (tape g (pos g) mod 2 ^ 53) / 2 ^ 53 * last (accumulate ws)) 0 (length population - 1)) (advance_by 1 g)"
proof -
  have len: "length (accumulate ws) = length population"
    using assms(1) by (simp add: accumulate_def length_accumulate_from)
  have ne: "accumulate ws \<noteq> []"
    using len assms(2) by (metis length_0_conv)
  have pos: "\<not> last (accumulate ws) \<le> 0"
    using assms(3) by simp
  show ?thesis
    unfolding choices_def Let_def by (simp only: len ne pos if_False simp_thms post_gbind post_random_py post_ret)
qed

lemma choices_in:
  assumes "length ws = length population" "population \<noteq> []" "0 < last (accumulate ws)"
    and "\<And>x. x \<in> set population \<Longrightarrow> P x (advance_by 1 g)"
  shows "post (choices population ws) g P"
proof -
  have "bisect_right (accumulate ws) y 0 (length population - 1) < length population" for y
    using bisect_right_bounds[of 0 "length population - 1" "accumulate ws" y] assms(2)
    by (cases population) auto
  then show ?thesis
    using assms by (simp add: post_choices)
qed

lemma choice_in:
  assumes "seq \<noteq> []" and "\<And>x. x \<in> set seq \<Longrightarrow> P x (advance_by 1 g)"
  shows "post (choice seq) g P"
  using assms by (simp add: post_choice)

lemma randint_in:
  assumes "a \<le> b" and "\<And>r. a \<le> r \<Longrightarrow> r \<le> b \<Longrightarrow> P r (advance_by 1 g)"
  shows "post (randint a b) g P"
proof -
  have "int (tape g (pos g) mod nat (b + 1 - a)) < b + 1 - a"
    using assms(1) by (simp add: zmod_int)
  then show ?thesis using assms by (simp add: post_randint)
qed

lemma random_unit: "0 \<le> (of_nat (x mod 2 ^ 53) / 2 ^ 53 :: rat) \<and> (of_nat (x mod 2 ^ 53) / 2 ^ 53 :: rat) < 1"
proof -
  have "x mod 2 ^ 53 < (2 ^ 53 :: nat)" by simp
  then have "(of_nat (x mod 2 ^ 53) :: rat) < of_nat (2 ^ 53)" by (rule of_nat_less_iff[THEN iffD2])
  then show ?thesis by simp
qed

lemma random_in:
  assumes "\<And>u. 0 \<le> u \<Longrightarrow> u < 1 \<Longrightarrow> P u (advance_by 1 g)"
  shows "post random_py g P"
  using assms random_unit by (simp add: post_random_py)

subsection \<open>The functions of the generator\<close>


lemma CATEGORIES_cases:
  "c \<in> set CATEGORIES \<Longrightarrow>
   c = ''Traffic'' \<or> c = ''Cybersecurity'' \<or> c = ''Public Safety'' \<or> c = ''Utilities'' \<or> c = ''Environmental''"
  by (simp add: CATEGORIES_def)

lemma SEVERITIES_cases:
  "s \<in> set SEVERITIES \<Longrightarrow> s = ''low'' \<or> s = ''medium'' \<or> s = ''high'' \<or> s = ''critical''"
  by (simp add: SEVERITIES_def)

lemma STATUSES_cases:
  "st \<in> set STATUSES \<Longrightarrow> st = ''open'' \<or> st = ''acknowledged'' \<or> st = ''resolved''"
  by (simp add: STATUSES_def)

lemma severity_weights:
  assumes "c \<in> set CATEGORIES"
  shows "\<exists>w. map_of SEVERITY_WEIGHTS c = Some w \<and> length w = length SEVERITIES \<and> 0 < last (accumulate w)"
  using CATEGORIES_cases[OF assms]
  by (auto simp: SEVERITY_WEIGHTS_def SEVERITIES_def accumulate_def)

lemma status_weights:
  assumes "s \<in> set SEVERITIES"
  shows "\<exists>w. map_of STATUS_WEIGHTS s = Some w \<and> length w = length STATUSES \<and> 0 < last (accumulate w)"
  using SEVERITIES_cases[OF assms]
  by (auto simp: STATUS_WEIGHTS_def STATUSES_def accumulate_def)

lemma pick_severity_in:
  assumes "c \<in> set CATEGORIES" and "\<And>s. s \<in> set SEVERITIES \<Longrightarrow> P s (advance_by 1 g)"
  shows "post (pick_severity c) g P"
proof -
  from severity_weights[OF assms(1)] obtain w where
    w: "map_of SEVERITY_WEIGHTS c = Some w" "length w = length SEVERITIES" "0 < last (accumulate w)"
    by blast
  have ne: "SEVERITIES \<noteq> []" by (simp add: SEVERITIES_def)
  show ?thesis
    unfolding pick_severity_def post_gbind post_getitem[OF w(1)]
    by (rule choices_in[OF w(2) ne w(3)]) (rule assms(2))
qed

lemma pick_status_in:
  assumes "s \<in> set SEVERITIES" and "\<And>st. st \<in> set STATUSES \<Longrightarrow> P st (advance_by 1 g)"
  shows "post (pick_status s) g P"
proof -
  from status_weights[OF assms(1)] obtain w where
    w: "map_of STATUS_WEIGHTS s = Some w" "length w = length STATUSES" "0 < last (accumulate w)"
    by blast
  have ne: "STATUSES \<noteq> []" by (simp add: STATUSES_def)
  show ?thesis
    unfolding pick_status_def post_gbind post_getitem[OF w(1)]
    by (rule choices_in[OF w(2) ne w(3)]) (rule assms(2))
qed

lemma detected_at_fn_in:
  assumes "\<And>off. 0 \<le> off \<Longrightarrow> off \<le> 129600 \<Longrightarrow> P (now - minutes (off + index * 3)) (advance_by 1 g)"
  shows "post (detected_at_fn now index) g P"
  unfolding detected_at_fn_def Let_def post_gbind
proof (rule randint_in)
  show "(0::int) \<le> 90 * 24 * 60" by simp
next
  fix r :: int assume "0 \<le> r" "r \<le> 90 * 24 * 60"
  then have "post (ret (now - minutes (r + index * 3))) (advance_by 1 g) P"
    unfolding post_ret by (intro assms) simp_all
  then show "post (ret (now - minutes (r + index * 3))) (advance_by 1 g) P" .
qed

lemma ack_bounds_of:
  assumes "s \<in> set SEVERITIES"
  shows "\<exists>lo hi. map_of ack_bounds s = Some (lo, hi) \<and> 0 \<le> lo \<and> lo \<le> hi"
  using SEVERITIES_cases[OF assms] by (auto simp: ack_bounds_def)

lemma res_bounds_of:
  assumes "s \<in> set SEVERITIES"
  shows "\<exists>lo hi. map_of res_bounds s = Some (lo, hi) \<and> 0 \<le> lo \<and> lo \<le> hi"
  using SEVERITIES_cases[OF assms] by (auto simp: res_bounds_def)

lemma minutes_mono: "a \<le> b \<Longrightarrow> minutes a \<le> minutes b"
  by (simp add: minutes_def)

lemma minutes_nonneg: "0 \<le> a \<Longrightarrow> 0 \<le> minutes a"
  by (simp add: minutes_def)

lemma minutes_pos: "0 < a \<Longrightarrow> 0 < minutes a"
  by (simp add: minutes_def)

lemma acknowledged_and_resolved_in:
  assumes s: "s \<in> set SEVERITIES"
    and o: "st = ''open'' \<Longrightarrow> P (None, None) g"
    and a: "\<And>t. st = ''acknowledged'' \<Longrightarrow> d \<le> t \<Longrightarrow> P (Some t, None) (advance_by 1 g)"
    and r: "\<And>t u. st \<noteq> ''open'' \<Longrightarrow> st \<noteq> ''acknowledged'' \<Longrightarrow> d \<le> t \<Longrightarrow> t \<le> u \<Longrightarrow>
              P (Some t, Some u) (advance_by 2 g)"
  shows "post (acknowledged_and_resolved st s d) g P"
proof (cases "st = ''open''")
  case True
  then show ?thesis using o by (simp add: acknowledged_and_resolved_def)
next
  case no: False
  from ack_bounds_of[OF s] obtain alo ahi where
    ab: "map_of ack_bounds s = Some (alo, ahi)" "0 \<le> alo" "alo \<le> ahi" by blast
  from res_bounds_of[OF s] obtain rlo rhi where
    rb: "map_of res_bounds s = Some (rlo, rhi)" "0 \<le> rlo" "rlo \<le> rhi" by blast
  show ?thesis
  proof (cases "st = ''acknowledged''")
    case True
    have "post (randint alo ahi) g (\<lambda>m g'. P (Some (d + minutes m), None) g')"
    proof (rule randint_in[OF ab(3)])
      fix m assume "alo \<le> m"
      then have "0 \<le> minutes m" using ab(2) by (intro minutes_nonneg) simp
      then show "P (Some (d + minutes m), None) (advance_by 1 g)"
        by (intro a True) simp
    qed
    then show ?thesis
      using True by (simp add: acknowledged_and_resolved_def post_gbind post_getitem[OF ab(1)] Let_def)
  next
    case False
    have "post (randint alo ahi) g
            (\<lambda>m g'. post (randint rlo rhi) g' (\<lambda>k g''. P (Some (d + minutes m), Some (d + minutes m + minutes k)) g''))"
    proof (rule randint_in[OF ab(3)])
      fix m assume m: "alo \<le> m"
      then have m0: "0 \<le> minutes m" using ab(2) by (intro minutes_nonneg) simp
      show "post (randint rlo rhi) (advance_by 1 g)
              (\<lambda>k g''. P (Some (d + minutes m), Some (d + minutes m + minutes k)) g'')"
      proof (rule randint_in[OF rb(3)])
        fix k assume "rlo \<le> k"
        then have "0 \<le> minutes k" using rb(2) by (intro minutes_nonneg) simp
        with m0 have "P (Some (d + minutes m), Some (d + minutes m + minutes k)) (advance_by 2 g)"
          by (intro r no False) simp_all
        then show "P (Some (d + minutes m), Some (d + minutes m + minutes k)) (advance_by 1 (advance_by 1 g))"
          by (simp only: advance_by_simps one_add_one)
      qed
    qed
    then show ?thesis
      using no False
      by (simp add: acknowledged_and_resolved_def post_gbind post_getitem[OF ab(1)] post_getitem[OF rb(1)] Let_def)
  qed
qed

lemma root_cause_fn_in:
  assumes "fp \<Longrightarrow> P None g"
    and "\<And>c. \<not> fp \<Longrightarrow> c \<in> set ROOT_CAUSES \<Longrightarrow> P (Some c) (advance_by 1 g)"
  shows "post (root_cause_fn s fp) g P"
proof (cases fp)
  case True
  then show ?thesis using assms(1) by (simp add: root_cause_fn_def)
next
  case False
  have ne: "ROOT_CAUSES \<noteq> []" by (simp add: ROOT_CAUSES_def)
  have "post (choice ROOT_CAUSES) g (\<lambda>c g'. P (Some c) g')"
    by (rule choice_in[OF ne]) (rule assms(2)[OF False])
  then show ?thesis using False by (simp add: root_cause_fn_def post_gbind)
qed

lemma locations_of:
  assumes "c \<in> set CATEGORIES"
  shows "\<exists>ls. map_of LOCATIONS c = Some ls \<and> ls \<noteq> []"
  using CATEGORIES_cases[OF assms] by (auto simp: LOCATIONS_def)

lemma sensor_ids_of:
  assumes "c \<in> set CATEGORIES"
  shows "\<exists>ls. map_of SENSOR_IDS c = Some ls \<and> ls \<noteq> []"
  using CATEGORIES_cases[OF assms] by (auto simp: SENSOR_IDS_def)

lemma choose_location_in:
  assumes "c \<in> set CATEGORIES"
    and "\<And>ls l. map_of LOCATIONS c = Some ls \<Longrightarrow> l \<in> set ls \<Longrightarrow> P l (advance_by 1 g)"
  shows "post (choose_location c) g P"
proof -
  from locations_of[OF assms(1)] obtain ls where ls: "map_of LOCATIONS c = Some ls" "ls \<noteq> []"
    by blast
  show ?thesis
    unfolding choose_location_def post_gbind post_getitem[OF ls(1)]
    by (rule choice_in[OF ls(2)]) (rule assms(2)[OF ls(1)])
qed

lemma choose_title_in:
  assumes "c \<in> set CATEGORIES" and "\<And>t. map_of TITLES c = Some t \<Longrightarrow> P t g"
  shows "post (choose_title c) g P"
proof -
  from CATEGORIES_cases[OF assms(1)] obtain t where t: "map_of TITLES c = Some t"
    by (auto simp: TITLES_def)
  show ?thesis
    unfolding choose_title_def post_getitem[OF t] by (rule assms(2)[OF t])
qed

lemma choose_description_in:
  assumes "c \<in> set CATEGORIES" and "\<And>t. map_of DESCRIPTIONS c = Some t \<Longrightarrow> P t g"
  shows "post (choose_description c) g P"
proof -
  from CATEGORIES_cases[OF assms(1)] obtain t where t: "map_of DESCRIPTIONS c = Some t"
    by (auto simp: DESCRIPTIONS_def)
  show ?thesis
    unfolding choose_description_def post_getitem[OF t] by (rule assms(2)[OF t])
qed

lemma choose_impact_in:
  assumes "c \<in> set CATEGORIES"
    and "\<And>base. map_of IMPACTS c = Some base \<Longrightarrow>
          P (if s \<in> {''high'', ''critical''} then base @ '' Escalation priority elevated.'' else base) g"
  shows "post (choose_impact c s) g P"
proof -
  from CATEGORIES_cases[OF assms(1)] obtain t where t: "map_of IMPACTS c = Some t"
    by (auto simp: IMPACTS_def)
  show ?thesis
  proof (cases "s \<in> {''high'', ''critical''}")
    case True
    with assms(2)[OF t] show ?thesis
      unfolding choose_impact_def post_gbind post_getitem[OF t] by (simp only: if_True post_ret)
  next
    case False
    with assms(2)[OF t] show ?thesis
      unfolding choose_impact_def post_gbind post_getitem[OF t] by (simp only: if_False post_ret)
  qed
qed

lemma post_if: "post (if c then a else b) g P = ((c \<longrightarrow> post a g P) \<and> (\<not> c \<longrightarrow> post b g P))"
  by simp

lemma sensor_status_in:
  assumes "\<And>x. P x (advance_by 1 g)"
  shows "post (sensor_status s fp) g P"
proof -
  have c: "post (choices population ws) g P"
    if "length ws = length population" "population \<noteq> []" "0 < last (accumulate ws)"
    for population :: "string list" and ws
    by (rule choices_in[OF that]) (rule assms)
  have h1: "post (choices [''healthy'', ''warning''] [7 / 10, 3 / 10]) g P"
    by (rule c) (simp_all add: accumulate_def)
  have h2: "post (choices [''alert'', ''warning''] [8 / 10, 2 / 10]) g P"
    by (rule c) (simp_all add: accumulate_def)
  have h3: "post (choices [''alert'', ''warning'', ''healthy''] [5 / 10, 35 / 100, 15 / 100]) g P"
    by (rule c) (simp_all add: accumulate_def)
  have h4: "post (choices [''warning'', ''healthy'', ''alert''] [55 / 100, 35 / 100, 1 / 10]) g P"
    by (rule c) (simp_all add: accumulate_def)
  have h5: "post (choices [''healthy'', ''warning''] [75 / 100, 25 / 100]) g P"
    by (rule c) (simp_all add: accumulate_def)
  show ?thesis
    unfolding sensor_status_def post_if using h1 h2 h3 h4 h5 by blast
qed

subsection \<open>The payloads\<close>

lemma round_py_mono:
  assumes "0 \<le> x" "x \<le> y"
  shows "round_py x n \<le> round_py y n"
proof -
  have "0 \<le> x * 10 ^ n" using assms(1) by simp
  from round_half_even_mono[OF this] have r0: "0 \<le> round_half_even (x * 10 ^ n)" by simp
  have "x * 10 ^ n \<le> y * 10 ^ n" using assms(2) by simp
  from round_half_even_mono[OF this]
  have "(of_int (round_half_even (x * 10 ^ n)) :: rat) \<le> of_int (round_half_even (y * 10 ^ n))"
    by (simp only: of_int_le_iff)
  then have "(of_int (round_half_even (x * 10 ^ n)) :: rat) / 10 ^ n
      \<le> of_int (round_half_even (y * 10 ^ n)) / 10 ^ n"
    by (simp add: divide_right_mono)
  moreover from r0 have "0 \<le> (of_int (round_half_even (x * 10 ^ n)) :: rat) / 10 ^ n" by simp
  ultimately show ?thesis unfolding round_py_def by (intro fl_mono)
qed

lemma random_le: "(of_nat (x mod 2 ^ 53) / 2 ^ 53 :: rat) \<le> (2 ^ 53 - 1) / 2 ^ 53"
proof -
  have "x mod 2 ^ 53 < (2 ^ 53 :: nat)" by simp
  then have "x mod 2 ^ 53 \<le> (2 ^ 53 - 1 :: nat)" by linarith
  then have "(of_nat (x mod 2 ^ 53) :: rat) \<le> of_nat (2 ^ 53 - 1)" by (simp only: of_nat_le_iff)
  also have "(of_nat (2 ^ 53 - 1) :: rat) = 2 ^ 53 - 1" by simp
  finally show ?thesis by (simp add: divide_right_mono)
qed

lemma uniform_mono:
  assumes "0 \<le> lo" "lo \<le> hi" "0 \<le> u" "u \<le> v"
  shows "0 \<le> fl (lo + fl (fl (hi - lo) * u))"
    and "fl (lo + fl (fl (hi - lo) * u)) \<le> fl (lo + fl (fl (hi - lo) * v))"
proof -
  have d: "0 \<le> fl (hi - lo)" using assms(2) by (intro fl_nonneg) simp
  have du: "0 \<le> fl (hi - lo) * u" using d assms(3) by simp
  have "fl (hi - lo) * u \<le> fl (hi - lo) * v" using d assms(4) by (simp add: mult_left_mono)
  from fl_mono[OF du this] have t: "fl (fl (hi - lo) * u) \<le> fl (fl (hi - lo) * v)" .
  have t0: "0 \<le> fl (fl (hi - lo) * u)" using du by (rule fl_nonneg)
  with assms(1) have s0: "0 \<le> lo + fl (fl (hi - lo) * u)" by simp
  then show "0 \<le> fl (lo + fl (fl (hi - lo) * u))" by (rule fl_nonneg)
  from t have "lo + fl (fl (hi - lo) * u) \<le> lo + fl (fl (hi - lo) * v)" by simp
  with s0 show "fl (lo + fl (fl (hi - lo) * u)) \<le> fl (lo + fl (fl (hi - lo) * v))"
    by (rule fl_mono)
qed

lemma uniform_round_in:
  assumes r: "float_range n lo hi"
    and P: "\<And>x. lo \<le> round_py x n \<Longrightarrow> round_py x n \<le> hi \<Longrightarrow> P x (advance_by 1 g)"
  shows "post (uniform lo hi) g P"
proof -
  let ?u = "of_nat (tape g (pos g) mod 2 ^ 53) / 2 ^ 53 :: rat"
  let ?m = "(2 ^ 53 - 1) / 2 ^ 53 :: rat"
  let ?x = "\<lambda>u. fl (lo + fl (fl (hi - lo) * u))"
  from r have lo: "0 \<le> lo" "lo \<le> hi" and b0: "lo \<le> round_py (?x 0) n"
    and b1: "round_py (?x ?m) n \<le> hi"
    by (simp_all add: float_range_def)
  have u: "0 \<le> ?u" "?u \<le> ?m" using random_unit random_le by auto
  from uniform_mono[OF lo order_refl u(1)] have x0: "0 \<le> ?x 0" "?x 0 \<le> ?x ?u" by simp_all
  from uniform_mono[OF lo u] have xu: "0 \<le> ?x ?u" "?x ?u \<le> ?x ?m" by simp_all
  have "lo \<le> round_py (?x ?u) n" by (rule order_trans[OF b0 round_py_mono[OF x0]])
  moreover have "round_py (?x ?u) n \<le> hi" by (rule order_trans[OF round_py_mono[OF xu] b1])
  ultimately have "P (?x ?u) (advance_by 1 g)" by (rule P)
  then show ?thesis by (simp add: post_uniform)
qed

lemma map_of_list_all:
  assumes "list_all Q tbl" "map_of tbl k = Some v"
  shows "Q (k, v)"
  using assms by (induction tbl) (auto split: if_splits)

lemma traffic_table:
  "list_all (\<lambda>(s, b). fst (vehicle_count b) \<le> snd (vehicle_count b) \<and>
      float_range 1 (fst (avg_speed_kmh b)) (snd (avg_speed_kmh b))) TRAFFIC_PAYLOAD_RANGES"
  by code_simp

lemma anomaly_table: "list_all (\<lambda>(s, lo, hi). float_range 2 lo hi) PUBLIC_SAFETY_ANOMALY_RANGE"
  by code_simp

lemma chlorine_table: "list_all (\<lambda>(s, lo, hi). float_range 2 lo hi) UTILITIES_CHLORINE_RANGE"
  by code_simp

lemma pm25_table: "list_all (\<lambda>(s, lo, hi). float_range 1 lo hi) ENVIRONMENTAL_PM25_RANGE"
  by code_simp

lemma ph_range: "float_range 2 (fl (65 / 10)) (fl (83 / 10))"
  by code_simp


lemma traffic_ranges_of:
  assumes "s \<in> set SEVERITIES"
  shows "\<exists>b. map_of TRAFFIC_PAYLOAD_RANGES s = Some b \<and>
           fst (vehicle_count b) \<le> snd (vehicle_count b) \<and>
           float_range 1 (fst (avg_speed_kmh b)) (snd (avg_speed_kmh b))"
proof -
  from SEVERITIES_cases[OF assms] have "map_of TRAFFIC_PAYLOAD_RANGES s \<noteq> None"
    by (elim disjE) (simp_all add: TRAFFIC_PAYLOAD_RANGES_def)
  then obtain b where b: "map_of TRAFFIC_PAYLOAD_RANGES s = Some b" by auto
  from map_of_list_all[OF traffic_table b] b show ?thesis by simp
qed

lemma cyber_ranges_of:
  assumes "s \<in> set SEVERITIES"
  shows "\<exists>b. map_of CYBER_PAYLOAD_RANGES s = Some b \<and>
           fst (failed_attempts b) \<le> snd (failed_attempts b) \<and>
           fst (unique_ips b) \<le> snd (unique_ips b)"
  using SEVERITIES_cases[OF assms] by (elim disjE) (simp_all add: CYBER_PAYLOAD_RANGES_def)

lemma good_rangeI:
  assumes "list_all (\<lambda>(s, lo, hi). float_range n lo hi) tbl" "map_of tbl s \<noteq> None"
  shows "good_range n (map_of tbl s)"
proof -
  from assms(2) obtain lo hi where b: "map_of tbl s = Some (lo, hi)" by auto
  from map_of_list_all[OF assms(1) b] show ?thesis by (simp add: good_range_def b)
qed

lemma good_rangeE:
  assumes "good_range n b"
  obtains lo hi where "b = Some (lo, hi)" "float_range n lo hi"
  using assms unfolding good_range_def by (cases b) auto

lemma anomaly_range_of:
  assumes "s \<in> set SEVERITIES"
  shows "good_range 2 (map_of PUBLIC_SAFETY_ANOMALY_RANGE s)"
proof (rule good_rangeI[OF anomaly_table])
  from SEVERITIES_cases[OF assms] show "map_of PUBLIC_SAFETY_ANOMALY_RANGE s \<noteq> None"
    by (elim disjE) (simp_all add: PUBLIC_SAFETY_ANOMALY_RANGE_def)
qed

lemma chlorine_range_of:
  assumes "s \<in> set SEVERITIES"
  shows "good_range 2 (map_of UTILITIES_CHLORINE_RANGE s)"
proof (rule good_rangeI[OF chlorine_table])
  from SEVERITIES_cases[OF assms] show "map_of UTILITIES_CHLORINE_RANGE s \<noteq> None"
    by (elim disjE) (simp_all add: UTILITIES_CHLORINE_RANGE_def)
qed

lemma pm25_range_of:
  assumes "s \<in> set SEVERITIES"
  shows "good_range 1 (map_of ENVIRONMENTAL_PM25_RANGE s)"
proof (rule good_rangeI[OF pm25_table])
  from SEVERITIES_cases[OF assms] show "map_of ENVIRONMENTAL_PM25_RANGE s \<noteq> None"
    by (elim disjE) (simp_all add: ENVIRONMENTAL_PM25_RANGE_def)
qed

lemma traffic_payload_in:
  assumes s: "s \<in> set SEVERITIES"
    and P: "\<And>p. payload_ok ''Traffic'' s p \<Longrightarrow> P p (advance_by 2 g)"
  shows "post (traffic_payload s) g P"
proof -
  from traffic_ranges_of[OF s] obtain b where
    b: "map_of TRAFFIC_PAYLOAD_RANGES s = Some b"
      "fst (vehicle_count b) \<le> snd (vehicle_count b)"
      "float_range 1 (fst (avg_speed_kmh b)) (snd (avg_speed_kmh b))"
    by blast
  show ?thesis
    unfolding traffic_payload_def post_gbind post_getitem[OF b(1)] Let_def
  proof (rule randint_in[OF b(2)], rule uniform_round_in[OF b(3)])
    fix v x
    assume v: "fst (vehicle_count b) \<le> v" "v \<le> snd (vehicle_count b)"
      and x: "fst (avg_speed_kmh b) \<le> round_py x 1" "round_py x 1 \<le> snd (avg_speed_kmh b)"
    have "payload_ok ''Traffic'' s
            [(''vehicle_count'', IntVal v), (''avg_speed_kmh'', FloatVal (round_py x 1))]"
      using v x b(1)
      by (cases "avg_speed_kmh b")
        (simp add: payload_ok_def payload_fields_def field_in_range_def in_bounds_def
          registered_bounds_def)
    from P[OF this]
    show "post (ret [(''vehicle_count'', IntVal v), (''avg_speed_kmh'', FloatVal (round_py x 1))])
            (advance_by 1 (advance_by 1 g)) P"
      by (simp only: post_ret advance_by_simps one_add_one)
  qed
qed

lemma cyber_payload_in:
  assumes s: "s \<in> set SEVERITIES"
    and P: "\<And>p. payload_ok ''Cybersecurity'' s p \<Longrightarrow> P p (advance_by 2 g)"
  shows "post (cyber_payload s) g P"
proof -
  from cyber_ranges_of[OF s] obtain b where
    b: "map_of CYBER_PAYLOAD_RANGES s = Some b"
      "fst (failed_attempts b) \<le> snd (failed_attempts b)"
      "fst (unique_ips b) \<le> snd (unique_ips b)"
    by blast
  show ?thesis
    unfolding cyber_payload_def post_gbind post_getitem[OF b(1)]
  proof (rule randint_in[OF b(2)], rule randint_in[OF b(3)])
    fix v w
    assume v: "fst (failed_attempts b) \<le> v" "v \<le> snd (failed_attempts b)"
      and w: "fst (unique_ips b) \<le> w" "w \<le> snd (unique_ips b)"
    have "payload_ok ''Cybersecurity'' s
            [(''failed_attempts'', IntVal v), (''unique_ips'', IntVal w)]"
      using v w b(1)
      by (simp add: payload_ok_def payload_fields_def field_in_range_def in_bounds_def
          registered_bounds_def)
    from P[OF this]
    show "post (ret [(''failed_attempts'', IntVal v), (''unique_ips'', IntVal w)])
            (advance_by 1 (advance_by 1 g)) P"
      by (simp only: post_ret advance_by_simps one_add_one)
  qed
qed

lemma public_safety_payload_in:
  assumes s: "s \<in> set SEVERITIES"
    and P: "\<And>p. payload_ok ''Public Safety'' s p \<Longrightarrow> P p (advance_by 1 g)"
  shows "post (public_safety_payload s) g P"
proof -
  from anomaly_range_of[OF s] obtain lo hi where
    b: "map_of PUBLIC_SAFETY_ANOMALY_RANGE s = Some (lo, hi)" "float_range 2 lo hi"
    by (rule good_rangeE)
  show ?thesis
    unfolding public_safety_payload_def post_gbind post_getitem[OF b(1)] Let_def prod.case
  proof (rule uniform_round_in[OF b(2)])
    fix x
    assume x: "lo \<le> round_py x 2" "round_py x 2 \<le> hi"
    have "payload_ok ''Public Safety'' s [(''anomaly_score'', FloatVal (round_py x 2))]"
      using x b(1)
      by (simp add: payload_ok_def payload_fields_def field_in_range_def in_bounds_def
          registered_bounds_def)
    from P[OF this]
    show "post (ret [(''anomaly_score'', FloatVal (round_py x 2))]) (advance_by 1 g) P"
      by (simp only: post_ret)
  qed
qed

lemma utilities_payload_in:
  assumes s: "s \<in> set SEVERITIES"
    and P: "\<And>p. payload_ok ''Utilities'' s p \<Longrightarrow> P p (advance_by 2 g)"
  shows "post (utilities_payload s) g P"
proof -
  from chlorine_range_of[OF s] obtain lo hi where
    b: "map_of UTILITIES_CHLORINE_RANGE s = Some (lo, hi)" "float_range 2 lo hi"
    by (rule good_rangeE)
  show ?thesis
    unfolding utilities_payload_def post_gbind post_getitem[OF b(1)] Let_def prod.case
  proof (rule uniform_round_in[OF b(2)], rule uniform_round_in[OF ph_range])
    fix x y
    assume x: "lo \<le> round_py x 2" "round_py x 2 \<le> hi"
      and y: "fl (65 / 10) \<le> round_py y 2" "round_py y 2 \<le> fl (83 / 10)"
    have "payload_ok ''Utilities'' s
            [(''chlorine_ppm'', FloatVal (round_py x 2)), (''ph'', FloatVal (round_py y 2))]"
      using x y b(1)
      by (simp add: payload_ok_def payload_fields_def field_in_range_def in_bounds_def
          registered_bounds_def)
    from P[OF this]
    show "post (ret [(''chlorine_ppm'', FloatVal (round_py x 2)), (''ph'', FloatVal (round_py y 2))])
            (advance_by 1 (advance_by 1 g)) P"
      by (simp only: post_ret advance_by_simps one_add_one)
  qed
qed

lemma environmental_payload_in:
  assumes s: "s \<in> set SEVERITIES"
    and P: "\<And>p. payload_ok ''Environmental'' s p \<Longrightarrow> P p (advance_by 1 g)"
  shows "post (environmental_payload s) g P"
proof -
  from pm25_range_of[OF s] obtain lo hi where
    b: "map_of ENVIRONMENTAL_PM25_RANGE s = Some (lo, hi)" "float_range 1 lo hi"
    by (rule good_rangeE)
  show ?thesis
    unfolding environmental_payload_def post_gbind post_getitem[OF b(1)] Let_def prod.case
  proof (rule uniform_round_in[OF b(2)])
    fix x
    assume x: "lo \<le> round_py x 1" "round_py x 1 \<le> hi"
    have "payload_ok ''Environmental'' s [(''pm2_5'', FloatVal (round_py x 1))]"
      using x b(1)
      by (simp add: payload_ok_def payload_fields_def field_in_range_def in_bounds_def
          registered_bounds_def)
    from P[OF this]
    show "post (ret [(''pm2_5'', FloatVal (round_py x 1))]) (advance_by 1 g) P"
      by (simp only: post_ret)
  qed
qed

lemma payload_draws_simps:
  "payload_draws ''Traffic'' = 2" "payload_draws ''Cybersecurity'' = 2"
  "payload_draws ''Public Safety'' = 1" "payload_draws ''Utilities'' = 2"
  "payload_draws ''Environmental'' = 1"
  by (simp_all add: payload_draws_def)

lemma sensor_payload_simps:
  "sensor_payload ''Traffic'' s = traffic_payload s"
  "sensor_payload ''Cybersecurity'' s = cyber_payload s"
  "sensor_payload ''Public Safety'' s = public_safety_payload s"
  "sensor_payload ''Utilities'' s = utilities_payload s"
  "sensor_payload ''Environmental'' s = environmental_payload s"
  by (simp_all add: sensor_payload_def)

lemma sensor_payload_in:
  assumes c: "c \<in> set CATEGORIES" and s: "s \<in> set SEVERITIES"
    and P: "\<And>p. payload_ok c s p \<Longrightarrow> P p (advance_by (payload_draws c) g)"
  shows "post (sensor_payload c s) g P"
  using CATEGORIES_cases[OF c]
proof (elim disjE)
  assume e: "c = ''Traffic''"
  show ?thesis
    unfolding e sensor_payload_simps
    by (rule traffic_payload_in[OF s]) (rule P[unfolded e payload_draws_simps])
next
  assume e: "c = ''Cybersecurity''"
  show ?thesis
    unfolding e sensor_payload_simps
    by (rule cyber_payload_in[OF s]) (rule P[unfolded e payload_draws_simps])
next
  assume e: "c = ''Public Safety''"
  show ?thesis
    unfolding e sensor_payload_simps
    by (rule public_safety_payload_in[OF s]) (rule P[unfolded e payload_draws_simps])
next
  assume e: "c = ''Utilities''"
  show ?thesis
    unfolding e sensor_payload_simps
    by (rule utilities_payload_in[OF s]) (rule P[unfolded e payload_draws_simps])
next
  assume e: "c = ''Environmental''"
  show ?thesis
    unfolding e sensor_payload_simps
    by (rule environmental_payload_in[OF s]) (rule P[unfolded e payload_draws_simps])
qed

subsection \<open>The draws of the parts of a record\<close>


lemma false_positive_probability_in:
  assumes "s \<in> set SEVERITIES" and "\<And>p. P p g"
  shows "post (getitem FALSE_POSITIVE_PROBABILITY s) g P"
proof -
  from SEVERITIES_cases[OF assms(1)] have "map_of FALSE_POSITIVE_PROBABILITY s \<noteq> None"
    by (elim disjE) (simp_all add: FALSE_POSITIVE_PROBABILITY_def)
  then obtain p where p: "map_of FALSE_POSITIVE_PROBABILITY s = Some p" by auto
  show ?thesis unfolding post_getitem[OF p] by (rule assms(2))
qed

lemma resolved_of:
  assumes "st \<in> set STATUSES" "st \<noteq> ''open''" "st \<noteq> ''acknowledged''"
  shows "st = ''resolved''"
  using STATUSES_cases[OF assms(1)] assms(2,3) by (elim disjE) simp_all

lemma status_draws_simps:
  "status_draws ''open'' = 0" "status_draws ''acknowledged'' = 1" "status_draws ''resolved'' = 2"
  by (simp_all add: status_draws_def)

lemma acknowledged_and_resolved_draws:
  assumes s: "s \<in> set SEVERITIES" and st: "st \<in> set STATUSES"
    and P: "\<And>a r. (a = None) = (st = ''open'') \<Longrightarrow> (r = None) = (st \<noteq> ''resolved'') \<Longrightarrow>
              (case a of None \<Rightarrow> True
               | Some t \<Rightarrow> d \<le> t \<and> (case r of None \<Rightarrow> True | Some u \<Rightarrow> t \<le> u)) \<Longrightarrow>
              P (a, r) (advance_by (status_draws st) g)"
  shows "post (acknowledged_and_resolved st s d) g P"
proof (rule acknowledged_and_resolved_in[OF s])
  assume e: "st = ''open''"
  have "P (None, None) (advance_by (status_draws st) g)"
    by (rule P) (simp_all add: e)
  then show "P (None, None) g" by (simp add: e status_draws_simps)
next
  fix t assume e: "st = ''acknowledged''" and t: "d \<le> t"
  have "P (Some t, None) (advance_by (status_draws st) g)"
    by (rule P) (simp_all add: e t)
  then show "P (Some t, None) (advance_by 1 g)" by (simp add: e status_draws_simps)
next
  fix t u assume "st \<noteq> ''open''" "st \<noteq> ''acknowledged''" and t: "d \<le> t" "t \<le> u"
  then have e: "st = ''resolved''" by (intro resolved_of[OF st])
  have "P (Some t, Some u) (advance_by (status_draws st) g)"
    by (rule P) (simp_all add: e t)
  then show "P (Some t, Some u) (advance_by 2 g)" by (simp add: e status_draws_simps)
qed

lemma root_cause_fn_draws:
  assumes "\<And>c. (c = None) = fp \<Longrightarrow> (case c of None \<Rightarrow> True | Some x \<Rightarrow> x \<in> set ROOT_CAUSES) \<Longrightarrow>
             P c (advance_by (if fp then 0 else 1) g)"
  shows "post (root_cause_fn s fp) g P"
proof (rule root_cause_fn_in)
  assume fp
  have "P None (advance_by (if fp then 0 else 1) g)"
    by (rule assms) (simp_all add: \<open>fp\<close>)
  then show "P None g" by (simp add: \<open>fp\<close>)
next
  fix c assume n: "\<not> fp" and c: "c \<in> set ROOT_CAUSES"
  have "P (Some c) (advance_by (if fp then 0 else 1) g)"
    by (rule assms) (simp_all add: n c)
  then show "P (Some c) (advance_by 1 g)" by (simp add: n)
qed

lemma sensor_measurement_fn_in:
  assumes c: "c \<in> set CATEGORIES" and s: "s \<in> set SEVERITIES"
    and P: "\<And>m ids k. map_of SENSOR_IDS c = Some ids \<Longrightarrow> sm_sensor_id m \<in> set ids \<Longrightarrow>
              sm_type m = c \<Longrightarrow> sm_captured_at m = d - minutes k \<Longrightarrow> 1 \<le> k \<Longrightarrow> k \<le> 12 \<Longrightarrow>
              payload_ok c s (sm_payload m) \<Longrightarrow>
              P m (advance_by (3 + payload_draws c) g)"
  shows "post (sensor_measurement_fn c s d fp) g P"
proof -
  from sensor_ids_of[OF c] obtain ids where ids: "map_of SENSOR_IDS c = Some ids" "ids \<noteq> []"
    by blast
  show ?thesis
    unfolding sensor_measurement_fn_def post_gbind post_getitem[OF ids(1)] Let_def
  proof (rule choice_in[OF ids(2)], rule sensor_status_in, rule randint_in, simp,
      rule sensor_payload_in[OF c s])
    fix x y :: string and k :: int and p
    assume x: "x \<in> set ids" and k: "1 \<le> k" "k \<le> 12" and p: "payload_ok c s p"
    have "P \<lparr>sm_sensor_id = x, sm_type = c, sm_status = y, sm_captured_at = d - minutes k,
             sm_payload = p\<rparr> (advance_by (3 + payload_draws c) g)"
      by (rule P[OF ids(1), where k = k]) (simp_all add: x k p)
    then show "post (ret \<lparr>sm_sensor_id = x, sm_type = c, sm_status = y,
                 sm_captured_at = d - minutes k, sm_payload = p\<rparr>)
             (advance_by (payload_draws c) (advance_by 1 (advance_by 1 (advance_by 1 g)))) P"
      by (simp add: numeral_3_eq_3)
  qed
qed

subsection \<open>The record\<close>


lemma choose_impact_eq:
  assumes "c \<in> set CATEGORIES"
    and "\<And>im base. map_of IMPACTS c = Some base \<Longrightarrow>
           im = (if s \<in> {''high'', ''critical''} then base @ '' Escalation priority elevated.''
                 else base) \<Longrightarrow> P im g"
  shows "post (choose_impact c s) g P"
  by (rule choose_impact_in[OF assms(1)]) (rule assms(2), assumption, rule refl)

lemma build_record_fp_in:
  assumes P: "\<And>r fp g' off ls base ids k.
      g' = advance_by (draws_of r fp) g \<Longrightarrow>
      record_id r = 1000 + index \<Longrightarrow>
      category r \<in> set CATEGORIES \<Longrightarrow>
      severity r \<in> set SEVERITIES \<Longrightarrow>
      status r \<in> set STATUSES \<Longrightarrow>
      detected_at r = now - minutes (off + index * 3) \<Longrightarrow> 0 \<le> off \<Longrightarrow> off \<le> 129600 \<Longrightarrow>
      (acknowledged_at r = None) = (status r = ''open'') \<Longrightarrow>
      (resolved_at r = None) = (status r \<noteq> ''resolved'') \<Longrightarrow>
      (case acknowledged_at r of None \<Rightarrow> True
       | Some t \<Rightarrow> detected_at r \<le> t \<and> (case resolved_at r of None \<Rightarrow> True | Some u \<Rightarrow> t \<le> u)) \<Longrightarrow>
      map_of TITLES (category r) = Some (title r) \<Longrightarrow>
      map_of LOCATIONS (category r) = Some ls \<Longrightarrow> location r \<in> set ls \<Longrightarrow>
      map_of DESCRIPTIONS (category r) = Some (description r) \<Longrightarrow>
      map_of IMPACTS (category r) = Some base \<Longrightarrow>
      impact r = (if severity r \<in> {''high'', ''critical''}
                  then base @ '' Escalation priority elevated.'' else base) \<Longrightarrow>
      (root_cause r = None) = fp \<Longrightarrow>
      (case root_cause r of None \<Rightarrow> True | Some x \<Rightarrow> x \<in> set ROOT_CAUSES) \<Longrightarrow>
      map_of SENSOR_IDS (category r) = Some ids \<Longrightarrow>
      sm_sensor_id (sensor_measurement r) \<in> set ids \<Longrightarrow>
      sm_type (sensor_measurement r) = category r \<Longrightarrow>
      sm_captured_at (sensor_measurement r) = detected_at r - minutes k \<Longrightarrow> 1 \<le> k \<Longrightarrow> k \<le> 12 \<Longrightarrow>
      payload_ok (category r) (severity r) (sm_payload (sensor_measurement r)) \<Longrightarrow>
      P (r, fp) g'"
  shows "post (build_record_fp now index) g P"
  unfolding build_record_fp_def post_gbind Let_def
  apply (rule choice_in, simp add: CATEGORIES_def)
  apply (rule pick_severity_in, assumption)
  apply (rule pick_status_in, assumption)
  apply (rule detected_at_fn_in)
  apply (rule random_in)
  apply (rule false_positive_probability_in, assumption)
  apply (rule acknowledged_and_resolved_draws, assumption, assumption)
  apply (simp only: prod.case post_gbind)
  apply (rule choose_title_in, assumption)
  apply (rule choose_location_in, assumption)
  apply (rule choose_description_in, assumption)
  apply (rule choose_impact_eq, assumption)
  apply (rule root_cause_fn_draws)
  apply (rule sensor_measurement_fn_in, assumption, assumption)
  apply (simp only: post_ret advance_by_simps)
  subgoal for x s st off u p a r t ls l ta im base c m ids k
    by (rule P[where off = off and ls = ls and base = base and ids = ids and k = k])
      (simp_all add: draws_of_def split: option.splits)
  done

subsection \<open>The whole dataset\<close>


lemma post_build_record:
  "post (build_record now index) g P = post (build_record_fp now index) g (\<lambda>(r, fp) g'. P r g')"
  by (simp add: build_record_def post_gbind case_prod_unfold)

lemma build_all_in:
  assumes "\<And>i g. i \<in> set is \<Longrightarrow> post (f (clock i) (int i)) g (\<lambda>a g'. Q i a)"
  shows "post (build_all f clock is) g (\<lambda>rs g'. list_all2 Q is rs)"
  using assms
proof (induction "is" arbitrary: g)
  case Nil
  then show ?case by simp
next
  case (Cons i "is")
  have hd: "post (f (clock i) (int i)) g (\<lambda>a g'. Q i a)" by (rule Cons.prems) simp
  have tl: "post (build_all f clock is) g' (\<lambda>rs g''. list_all2 Q is rs)" for g'
    by (rule Cons.IH) (rule Cons.prems, simp)
  show ?case
    unfolding build_all.simps post_gbind
  proof (rule post_mono[OF hd])
    fix a g' assume a: "Q i a"
    show "post (build_all f clock is) g' (\<lambda>rs g''. post (ret (a # rs)) g'' (\<lambda>rs g'. list_all2 Q (i # is) rs))"
      by (rule post_mono[OF tl]) (simp add: a)
  qed
qed

lemma run_post:
  assumes "post m g (\<lambda>a g'. Q a)"
  shows "\<exists>a. run g m = Inr a \<and> Q a"
  using assms by (auto simp: post_def run_def split: sum.splits)

lemma generate_dataset_in:
  assumes "\<And>i g. i < nat n \<Longrightarrow> post (build_record (clock i) (int i)) g (\<lambda>r g'. Q i r)"
  shows "\<exists>rs. generate_dataset clock mt n seed = Inr rs \<and> list_all2 Q [0..<nat n] rs"
  unfolding generate_dataset_def
  by (rule run_post, rule build_all_in) (rule assms, simp)

lemma generate_dataset_fp_in:
  assumes "\<And>i g. i < nat n \<Longrightarrow> post (build_record_fp (clock i) (int i)) g (\<lambda>r g'. Q i r)"
  shows "\<exists>rs. generate_dataset_fp clock mt n seed = Inr rs \<and> list_all2 Q [0..<nat n] rs"
  unfolding generate_dataset_fp_def
  by (rule run_post, rule build_all_in) (rule assms, simp)

lemma list_all2_const:
  "list_all2 (\<lambda>i. Q) is rs \<Longrightarrow> list_all Q rs"
  by (induction "is" rs rule: list_all2_induct) simp_all

lemma list_all2_upt_map:
  "list_all2 (\<lambda>i r. f r = h i) is rs \<Longrightarrow> map f rs = map h is"
  by (induction "is" rs rule: list_all2_induct) simp_all

subsection \<open>Identifiers and categories\<close>


lemma upt_5: "[0..<5] = [0, 1, 2, 3, 4]"
  by (simp add: upt_rec)

text \<open>
  With timestamps as integers, \<open>generate_dataset\<close> returns for every size and every seed,
  whatever the clock reads: as many records as the size says (none for a size below one),
  with the identifiers 1000, 1001, ... in this order and a category of \<^verbatim>\<open>CATEGORIES\<close> each.
\<close>

lemma exact_dataset_ids:
  "(\<exists>rs. generate_dataset clock mt n seed = Inr rs \<and> length rs = nat n \<and>
         map record_id rs = map (\<lambda>i. 1000 + int i) [0..<nat n] \<and>
         distinct (map record_id rs) \<and>
         list_all (\<lambda>r. category r \<in> set CATEGORIES) rs) \<and>
   generate_dataset clock mt 0 seed = Inr [] \<and>
   (\<exists>rs. generate_dataset clock mt 5 20241202 = Inr rs \<and> length rs = 5 \<and>
         map record_id rs = [1000, 1001, 1002, 1003, 1004])"
proof -
  have main: "\<exists>rs. generate_dataset clock mt n seed = Inr rs \<and> length rs = nat n \<and>
         map record_id rs = map (\<lambda>i. 1000 + int i) [0..<nat n] \<and>
         distinct (map record_id rs) \<and>
         list_all (\<lambda>r. category r \<in> set CATEGORIES) rs" for n seed
  proof -
    have "\<exists>rs. generate_dataset clock mt n seed = Inr rs \<and>
            list_all2 (\<lambda>i r. record_id r = 1000 + int i \<and> category r \<in> set CATEGORIES) [0..<nat n] rs"
    proof (rule generate_dataset_in)
      fix i g
      show "post (build_record (clock i) (int i)) g
              (\<lambda>r g'. record_id r = 1000 + int i \<and> category r \<in> set CATEGORIES)"
        unfolding post_build_record by (rule build_record_fp_in) simp
    qed
    then obtain rs where rs: "generate_dataset clock mt n seed = Inr rs"
      and all: "list_all2 (\<lambda>i r. record_id r = 1000 + int i \<and> category r \<in> set CATEGORIES) [0..<nat n] rs"
      by blast
    from all have len: "length rs = nat n" by (simp add: list_all2_lengthD[symmetric])
    from all have "list_all2 (\<lambda>i r. record_id r = 1000 + int i) [0..<nat n] rs"
      by (rule list_all2_mono) simp
    then have ids: "map record_id rs = map (\<lambda>i. 1000 + int i) [0..<nat n]"
      by (rule list_all2_upt_map)
    have "distinct (map (\<lambda>i. 1000 + int i) [0..<nat n])"
      by (simp add: distinct_map inj_on_def)
    then have dist: "distinct (map record_id rs)" by (simp only: ids)
    from all have "list_all2 (\<lambda>i r. category r \<in> set CATEGORIES) [0..<nat n] rs"
      by (rule list_all2_mono) simp
    then have cats: "list_all (\<lambda>r. category r \<in> set CATEGORIES) rs"
      by (rule list_all2_const)
    from rs len ids dist cats show ?thesis by blast
  qed
  have empty: "generate_dataset clock mt 0 seed = Inr []"
    by (simp add: generate_dataset_def run_def ret_def)
  from main[of 5 20241202] obtain rs where
    "generate_dataset clock mt 5 20241202 = Inr rs" "length rs = nat 5"
    "map record_id rs = map (\<lambda>i. 1000 + int i) [0..<nat 5]" by blast
  then have five: "\<exists>rs. generate_dataset clock mt 5 20241202 = Inr rs \<and> length rs = 5 \<and>
         map record_id rs = [1000, 1001, 1002, 1003, 1004]"
    by (simp add: upt_5)
  from main[of n seed] empty five show ?thesis by (intro conjI)
qed

subsection \<open>The order of the timestamps\<close>


lemma generate_dataset_all:
  assumes "\<And>now i g. post (build_record now i) g (\<lambda>r g'. Q r)"
  shows "\<exists>rs. generate_dataset clock mt n seed = Inr rs \<and> length rs = nat n \<and> list_all Q rs"
proof -
  have "\<exists>rs. generate_dataset clock mt n seed = Inr rs \<and> list_all2 (\<lambda>i. Q) [0..<nat n] rs"
    by (rule generate_dataset_in) (rule assms)
  then obtain rs where rs: "generate_dataset clock mt n seed = Inr rs"
    and all: "list_all2 (\<lambda>i. Q) [0..<nat n] rs" by blast
  from all have "length rs = nat n" by (simp add: list_all2_lengthD[symmetric])
  moreover from all have "list_all Q rs" by (rule list_all2_const)
  ultimately show ?thesis using rs by blast
qed

lemma generate_dataset_fp_all:
  assumes "\<And>now i g. post (build_record_fp now i) g (\<lambda>r g'. Q r)"
  shows "\<exists>rs. generate_dataset_fp clock mt n seed = Inr rs \<and> length rs = nat n \<and> list_all Q rs"
proof -
  have "\<exists>rs. generate_dataset_fp clock mt n seed = Inr rs \<and> list_all2 (\<lambda>i. Q) [0..<nat n] rs"
    by (rule generate_dataset_fp_in) (rule assms)
  then obtain rs where rs: "generate_dataset_fp clock mt n seed = Inr rs"
    and all: "list_all2 (\<lambda>i. Q) [0..<nat n] rs" by blast
  from all have "length rs = nat n" by (simp add: list_all2_lengthD[symmetric])
  moreover from all have "list_all Q rs" by (rule list_all2_const)
  ultimately show ?thesis using rs by blast
qed

lemma build_record_fst:
  "build_record now index g =
     (case build_record_fp now index g of
        Inl e \<Rightarrow> Inl e | Inr (x, g') \<Rightarrow> Inr (fst x, g'))"
  by (simp add: build_record_def gbind_def ret_def split: sum.splits prod.splits)

lemma build_all_Cons:
  "build_all f clock (i # is) g =
     (case f (clock i) (int i) g of
        Inl e \<Rightarrow> Inl e
      | Inr (r, g1) \<Rightarrow>
          (case build_all f clock is g1 of
             Inl e \<Rightarrow> Inl e | Inr (rs, g2) \<Rightarrow> Inr (r # rs, g2)))"
  by (simp add: gbind_def ret_def split: sum.splits prod.splits)

lemma build_all_fst:
  "build_all build_record clock is g =
     (case build_all build_record_fp clock is g of
        Inl e \<Rightarrow> Inl e | Inr (rs, g') \<Rightarrow> Inr (map fst rs, g'))"
proof (induction "is" arbitrary: g)
  case Nil
  then show ?case by (simp add: ret_def)
next
  case (Cons i "is")
  show ?case
    unfolding build_all_Cons Cons.IH build_record_fst[of "clock i" "int i" g]
    by (simp split: sum.splits prod.splits)
qed

lemma generate_dataset_fst:
  "generate_dataset_fp clock mt n seed = Inr rs \<Longrightarrow>
   generate_dataset clock mt n seed = Inr (map fst rs)"
  by (simp add: generate_dataset_def generate_dataset_fp_def run_def build_all_fst
      split: sum.splits prod.splits)

lemma build_record_in:
  assumes P: "\<And>r fp g' off ls base ids k.
      g' = advance_by (draws_of r fp) g \<Longrightarrow>
      record_id r = 1000 + index \<Longrightarrow>
      category r \<in> set CATEGORIES \<Longrightarrow>
      severity r \<in> set SEVERITIES \<Longrightarrow>
      status r \<in> set STATUSES \<Longrightarrow>
      detected_at r = now - minutes (off + index * 3) \<Longrightarrow> 0 \<le> off \<Longrightarrow> off \<le> 129600 \<Longrightarrow>
      (acknowledged_at r = None) = (status r = ''open'') \<Longrightarrow>
      (resolved_at r = None) = (status r \<noteq> ''resolved'') \<Longrightarrow>
      (case acknowledged_at r of None \<Rightarrow> True
       | Some t \<Rightarrow> detected_at r \<le> t \<and> (case resolved_at r of None \<Rightarrow> True | Some u \<Rightarrow> t \<le> u)) \<Longrightarrow>
      map_of TITLES (category r) = Some (title r) \<Longrightarrow>
      map_of LOCATIONS (category r) = Some ls \<Longrightarrow> location r \<in> set ls \<Longrightarrow>
      map_of DESCRIPTIONS (category r) = Some (description r) \<Longrightarrow>
      map_of IMPACTS (category r) = Some base \<Longrightarrow>
      impact r = (if severity r \<in> {''high'', ''critical''}
                  then base @ '' Escalation priority elevated.'' else base) \<Longrightarrow>
      (root_cause r = None) = fp \<Longrightarrow>
      (case root_cause r of None \<Rightarrow> True | Some x \<Rightarrow> x \<in> set ROOT_CAUSES) \<Longrightarrow>
      map_of SENSOR_IDS (category r) = Some ids \<Longrightarrow>
      sm_sensor_id (sensor_measurement r) \<in> set ids \<Longrightarrow>
      sm_type (sensor_measurement r) = category r \<Longrightarrow>
      sm_captured_at (sensor_measurement r) = detected_at r - minutes k \<Longrightarrow> 1 \<le> k \<Longrightarrow> k \<le> 12 \<Longrightarrow>
      payload_ok (category r) (severity r) (sm_payload (sensor_measurement r)) \<Longrightarrow>
      P r g'"
  shows "post (build_record now index) g P"
  unfolding post_build_record
  apply (rule build_record_fp_in)
  apply (simp (no_asm) only: prod.case)
  subgoal for r fp g' off ls base ids k
    by (rule P[where fp = fp and off = off and ls = ls and base = base and ids = ids and k = k];
        assumption)
  done

text \<open>
  Claim C3. Every record of a dataset has a measurement captured strictly before the
  detection; an acknowledgement, where there is one, is not before the detection; and a
  resolution, where there is one, is not before the detection and not before the
  acknowledgement. (\<^verbatim>\<open>generate_dataset\<close> returns for every size, seed and clock.)
\<close>

theorem temporal_ordering:
  "\<exists>rs. generate_dataset clock mt n seed = Inr rs \<and> length rs = nat n \<and>
     list_all (\<lambda>r. sm_captured_at (sensor_measurement r) < detected_at r \<and>
        (case acknowledged_at r of None \<Rightarrow> True | Some a \<Rightarrow> detected_at r \<le> a) \<and>
        (case resolved_at r of None \<Rightarrow> True
         | Some u \<Rightarrow> detected_at r \<le> u \<and>
             (case acknowledged_at r of None \<Rightarrow> True | Some a \<Rightarrow> a \<le> u))) rs"
proof (rule generate_dataset_all)
  fix now i g
  show "post (build_record now i) g
          (\<lambda>r g'. sm_captured_at (sensor_measurement r) < detected_at r \<and>
        (case acknowledged_at r of None \<Rightarrow> True | Some a \<Rightarrow> detected_at r \<le> a) \<and>
        (case resolved_at r of None \<Rightarrow> True
         | Some u \<Rightarrow> detected_at r \<le> u \<and>
             (case acknowledged_at r of None \<Rightarrow> True | Some a \<Rightarrow> a \<le> u)))"
  proof (rule build_record_in)
    fix r :: IncidentRecord and k :: int
    assume k: "sm_captured_at (sensor_measurement r) = detected_at r - minutes k" "1 \<le> k"
      and o: "(acknowledged_at r = None) = (status r = ''open'')"
        "(resolved_at r = None) = (status r \<noteq> ''resolved'')"
        "case acknowledged_at r of None \<Rightarrow> True
         | Some t \<Rightarrow> detected_at r \<le> t \<and> (case resolved_at r of None \<Rightarrow> True | Some u \<Rightarrow> t \<le> u)"
    from k have c: "sm_captured_at (sensor_measurement r) < detected_at r"
      by (simp add: minutes_def)
    from o have a: "case acknowledged_at r of None \<Rightarrow> True | Some a \<Rightarrow> detected_at r \<le> a"
      by (simp split: option.splits)
    from o have u: "case resolved_at r of None \<Rightarrow> True
         | Some u \<Rightarrow> detected_at r \<le> u \<and>
             (case acknowledged_at r of None \<Rightarrow> True | Some a \<Rightarrow> a \<le> u)"
      by (cases "acknowledged_at r"; cases "resolved_at r") auto
    from c a u show "sm_captured_at (sensor_measurement r) < detected_at r \<and>
        (case acknowledged_at r of None \<Rightarrow> True | Some a \<Rightarrow> detected_at r \<le> a) \<and>
        (case resolved_at r of None \<Rightarrow> True
         | Some u \<Rightarrow> detected_at r \<le> u \<and>
             (case acknowledged_at r of None \<Rightarrow> True | Some a \<Rightarrow> a \<le> u))"
      by (simp only: simp_thms)
  qed
qed

subsection \<open>Payloads, places, impacts and optional fields\<close>


lemma payload_of_record:
  "\<exists>rs. generate_dataset clock mt n seed = Inr rs \<and> length rs = nat n \<and>
     list_all (\<lambda>r. payload_ok (category r) (severity r) (sm_payload (sensor_measurement r))) rs"
  by (rule generate_dataset_all, rule build_record_in)

text \<open>
  Claim C7. In every record of a dataset the location is one of the locations that
  \<^verbatim>\<open>LOCATIONS\<close> registers for the category of the record, the sensor of the measurement is
  one of those that \<^verbatim>\<open>SENSOR_IDS\<close> registers for this category, and the type of the
  measurement is the category.
\<close>

theorem category_consistency:
  "\<exists>rs. generate_dataset clock mt n seed = Inr rs \<and> length rs = nat n \<and>
     list_all (\<lambda>r.
        (case map_of LOCATIONS (category r) of
           None \<Rightarrow> False | Some ls \<Rightarrow> location r \<in> set ls) \<and>
        (case map_of SENSOR_IDS (category r) of
           None \<Rightarrow> False | Some ids \<Rightarrow> sm_sensor_id (sensor_measurement r) \<in> set ids) \<and>
        sm_type (sensor_measurement r) = category r) rs"
  by (rule generate_dataset_all, rule build_record_in) simp

text \<open>
  Claim C10. In every record of a dataset, with \<open>base\<close> the entry of \<^verbatim>\<open>IMPACTS\<close> for the
  category of the record: the impact is \<open>base\<close> exactly when the severity is low or medium,
  and it is \<open>base\<close> followed by \<^verbatim>\<open> Escalation priority elevated.\<close> exactly when the severity
  is high or critical.
\<close>

theorem impact_by_severity:
  "\<exists>rs. generate_dataset clock mt n seed = Inr rs \<and> length rs = nat n \<and>
     list_all (\<lambda>r.
        case map_of IMPACTS (category r) of
          None \<Rightarrow> False
        | Some base \<Rightarrow>
            (impact r = base) = (severity r \<in> {''low'', ''medium''}) \<and>
            (impact r = base @ '' Escalation priority elevated.'') =
              (severity r \<in> {''high'', ''critical''})) rs"
proof (rule generate_dataset_all, rule build_record_in)
  fix r :: IncidentRecord and base
  assume s: "severity r \<in> set SEVERITIES" and b: "map_of IMPACTS (category r) = Some base"
    and i: "impact r = (if severity r \<in> {''high'', ''critical''}
                  then base @ '' Escalation priority elevated.'' else base)"
  from SEVERITIES_cases[OF s]
  have "(impact r = base) = (severity r \<in> {''low'', ''medium''}) \<and>
        (impact r = base @ '' Escalation priority elevated.'') =
          (severity r \<in> {''high'', ''critical''})"
    by (elim disjE) (simp_all add: i)
  then show "case map_of IMPACTS (category r) of
          None \<Rightarrow> False
        | Some base \<Rightarrow>
            (impact r = base) = (severity r \<in> {''low'', ''medium''}) \<and>
            (impact r = base @ '' Escalation priority elevated.'') =
              (severity r \<in> {''high'', ''critical''})"
    by (simp only: b option.case)
qed

text \<open>
  Claim C4. \<open>generate_dataset_fp\<close> is \<^verbatim>\<open>generate_dataset\<close> that also tells, for each record,
  the local \<^verbatim>\<open>false_positive\<close> of \<^verbatim>\<open>_build_record\<close>; dropping it gives the dataset. In every
  record there is an acknowledgement exactly when the status is acknowledged or resolved, a
  resolution exactly when the status is resolved, and no root cause exactly when the record
  was drawn as a false positive. The other fields are not optional in \<open>IncidentRecord\<close>, and
  the dataset is returned without an error, so none of their lookups fails.
\<close>

theorem optional_fields:
  "\<exists>rs. generate_dataset_fp clock mt n seed = Inr rs \<and>
     generate_dataset clock mt n seed = Inr (map fst rs) \<and> length rs = nat n \<and>
     list_all (\<lambda>(r, false_positive).
        (acknowledged_at r \<noteq> None) = (status r \<in> {''acknowledged'', ''resolved''}) \<and>
        (resolved_at r \<noteq> None) = (status r = ''resolved'') \<and>
        (root_cause r = None) = false_positive) rs"
proof -
  have "\<exists>rs. generate_dataset_fp clock mt n seed = Inr rs \<and> length rs = nat n \<and>
     list_all (\<lambda>(r, false_positive).
        (acknowledged_at r \<noteq> None) = (status r \<in> {''acknowledged'', ''resolved''}) \<and>
        (resolved_at r \<noteq> None) = (status r = ''resolved'') \<and>
        (root_cause r = None) = false_positive) rs"
  proof (rule generate_dataset_fp_all, rule build_record_fp_in)
    fix r :: IncidentRecord and fp :: bool
    assume st: "status r \<in> set STATUSES"
      and a: "(acknowledged_at r = None) = (status r = ''open'')"
      and u: "(resolved_at r = None) = (status r \<noteq> ''resolved'')"
      and c: "(root_cause r = None) = fp"
    from STATUSES_cases[OF st] a
    have "(acknowledged_at r \<noteq> None) = (status r \<in> {''acknowledged'', ''resolved''})"
      by (elim disjE) simp_all
    with u c show "case (r, fp) of (r, false_positive) \<Rightarrow>
        (acknowledged_at r \<noteq> None) = (status r \<in> {''acknowledged'', ''resolved''}) \<and>
        (resolved_at r \<noteq> None) = (status r = ''resolved'') \<and>
        (root_cause r = None) = false_positive"
      by (simp (no_asm_simp) only: prod.case simp_thms)
  qed
  then obtain rs where rs: "generate_dataset_fp clock mt n seed = Inr rs" "length rs = nat n"
     "list_all (\<lambda>(r, false_positive).
        (acknowledged_at r \<noteq> None) = (status r \<in> {''acknowledged'', ''resolved''}) \<and>
        (resolved_at r \<noteq> None) = (status r = ''resolved'') \<and>
        (root_cause r = None) = false_positive) rs" by blast
  from rs generate_dataset_fst[OF rs(1)] show ?thesis by blast
qed

subsection \<open>A record drawn from zeros\<close>


lemma bisect_right_first:
  assumes "\<And>i. i < hi \<Longrightarrow> x < a ! i"
  shows "bisect_right a x 0 hi = 0"
  using assms
proof (induction hi rule: less_induct)
  case (less hi)
  show ?case
  proof (cases "0 < hi")
    case False
    then show ?thesis by (subst bisect_right.simps) simp
  next
    case True
    then have m: "hi div 2 < hi" by simp
    have "x < a ! (hi div 2)" by (rule less.prems[OF m])
    then have "bisect_right a x 0 hi = bisect_right a x 0 (hi div 2)"
      using True by (subst bisect_right.simps) (simp add: Let_def)
    also have "\<dots> = 0"
    proof (rule less.IH[OF m])
      fix i assume "i < hi div 2"
      then have "i < hi" using m by linarith
      then show "x < a ! i" by (rule less.prems)
    qed
    finally show ?thesis .
  qed
qed

lemma less_3_cases: "i < (3::nat) \<Longrightarrow> i = 0 \<or> i = 1 \<or> i = 2"
  by linarith

lemma less_2_cases: "i < (2::nat) \<Longrightarrow> i = 0 \<or> i = 1"
  by linarith

lemma severity_weights_positive:
  assumes "c \<in> set CATEGORIES"
  shows "\<exists>w. map_of SEVERITY_WEIGHTS c = Some w \<and> length w = length SEVERITIES \<and>
           0 < last (accumulate w) \<and>
           0 < accumulate w ! 0 \<and> 0 < accumulate w ! 1 \<and> 0 < accumulate w ! 2"
  using CATEGORIES_cases[OF assms]
  by (elim disjE) (simp_all add: SEVERITY_WEIGHTS_def SEVERITIES_def accumulate_def)

lemma status_weights_positive:
  assumes "s \<in> set SEVERITIES"
  shows "\<exists>w. map_of STATUS_WEIGHTS s = Some w \<and> length w = length STATUSES \<and>
           0 < last (accumulate w) \<and> 0 < accumulate w ! 0 \<and> 0 < accumulate w ! 1"
  using SEVERITIES_cases[OF assms]
  by (elim disjE) (simp_all add: STATUS_WEIGHTS_def STATUSES_def accumulate_def)

lemma pick_severity_zero:
  assumes c: "c \<in> set CATEGORIES" and z: "tape g (pos g) mod 2 ^ 53 = 0"
  shows "post (pick_severity c) g P = P ''low'' (advance_by 1 g)"
proof -
  from severity_weights_positive[OF c] obtain w where
    w: "map_of SEVERITY_WEIGHTS c = Some w" "length w = length SEVERITIES"
      "0 < last (accumulate w)"
    and p: "0 < accumulate w ! 0" "0 < accumulate w ! 1" "0 < accumulate w ! 2"
    by blast
  have ne: "SEVERITIES \<noteq> []" by (simp add: SEVERITIES_def)
  have b: "bisect_right (accumulate w) (of_nat 0 / 2 ^ 53 * last (accumulate w)) 0
             (length SEVERITIES - 1) = 0"
  proof (rule bisect_right_first)
    fix i :: nat assume "i < length SEVERITIES - 1"
    then have "i < 3" by (simp add: SEVERITIES_def)
    from less_3_cases[OF this] p
    show "of_nat 0 / 2 ^ 53 * last (accumulate w) < accumulate w ! i"
      by (elim disjE) simp_all
  qed
  show ?thesis
    unfolding pick_severity_def post_gbind post_getitem[OF w(1)] post_choices[OF w(2) ne w(3)] z b
    by (simp add: SEVERITIES_def)
qed

lemma pick_status_zero:
  assumes s: "s \<in> set SEVERITIES" and z: "tape g (pos g) mod 2 ^ 53 = 0"
  shows "post (pick_status s) g P = P ''open'' (advance_by 1 g)"
proof -
  from status_weights_positive[OF s] obtain w where
    w: "map_of STATUS_WEIGHTS s = Some w" "length w = length STATUSES"
      "0 < last (accumulate w)"
    and p: "0 < accumulate w ! 0" "0 < accumulate w ! 1"
    by blast
  have ne: "STATUSES \<noteq> []" by (simp add: STATUSES_def)
  have b: "bisect_right (accumulate w) (of_nat 0 / 2 ^ 53 * last (accumulate w)) 0
             (length STATUSES - 1) = 0"
  proof (rule bisect_right_first)
    fix i :: nat assume "i < length STATUSES - 1"
    then have "i < 2" by (simp add: STATUSES_def)
    from less_2_cases[OF this] p
    show "of_nat 0 / 2 ^ 53 * last (accumulate w) < accumulate w ! i"
      by (elim disjE) simp_all
  qed
  show ?thesis
    unfolding pick_status_def post_gbind post_getitem[OF w(1)] post_choices[OF w(2) ne w(3)] z b
    by (simp add: STATUSES_def)
qed

lemma post_detected_at_fn:
  "post (detected_at_fn now index) g P =
     P (now - minutes (int (tape g (pos g) mod 129601) + index * 3)) (advance_by 1 g)"
  by (simp add: detected_at_fn_def Let_def post_gbind post_randint)


lemma choice_exact:
  assumes "seq \<noteq> []" and "P (seq ! (tape g (pos g) mod length seq)) (advance_by 1 g)"
  shows "post (choice seq) g P"
  using assms by (simp add: post_choice)

lemma pick_severity_zero_in:
  assumes "c \<in> set CATEGORIES" and "tape g (pos g) mod 2 ^ 53 = 0" and "P ''low'' (advance_by 1 g)"
  shows "post (pick_severity c) g P"
  unfolding pick_severity_zero[OF assms(1,2)] by (rule assms(3))

lemma pick_status_zero_in:
  assumes "s \<in> set SEVERITIES" and "tape g (pos g) mod 2 ^ 53 = 0" and "P ''open'' (advance_by 1 g)"
  shows "post (pick_status s) g P"
  unfolding pick_status_zero[OF assms(1,2)] by (rule assms(3))

lemma detected_at_fn_exact:
  assumes "P (now - minutes (int (tape g (pos g) mod 129601) + index * 3)) (advance_by 1 g)"
  shows "post (detected_at_fn now index) g P"
  unfolding post_detected_at_fn by (rule assms)

lemma random_zero_in:
  assumes "tape g (pos g) mod 2 ^ 53 = 0" and "P 0 (advance_by 1 g)"
  shows "post random_py g P"
  unfolding post_random_py assms(1) using assms(2) by simp

lemma false_positive_low:
  assumes "P (26 / 100) g"
  shows "post (getitem FALSE_POSITIVE_PROBABILITY ''low'') g P"
  using assms by (simp add: getitem_def FALSE_POSITIVE_PROBABILITY_def)

lemma zero_less_low: "((0::rat) < 26 / 100) = True"
  by simp

lemma category_drawn: "CATEGORIES ! (x mod length CATEGORIES) \<in> set CATEGORIES"
  by (rule nth_mem) (simp add: CATEGORIES_def)

lemma build_record_fp_zero:
  assumes z: "tape g (pos g + 1) mod 2 ^ 53 = 0" "tape g (pos g + 2) mod 2 ^ 53 = 0"
      "tape g (pos g + 4) mod 2 ^ 53 = 0"
    and P: "\<And>r g'. category r = CATEGORIES ! (tape g (pos g) mod length CATEGORIES) \<Longrightarrow>
              status r = ''open'' \<Longrightarrow>
              detected_at r = now - minutes (int (tape g (pos g + 3) mod 129601) + index * 3) \<Longrightarrow>
              g' = advance_by (9 + payload_draws (category r)) g \<Longrightarrow>
              P (r, True) g'"
  shows "post (build_record_fp now index) g P"
proof -
  have z1: "tape (advance_by 1 g) (pos (advance_by 1 g)) mod 2 ^ 53 = 0"
    by (simp only: advance_by_simps z(1))
  have p2: "pos (advance_by 1 (advance_by 1 g)) = pos g + 2" by simp
  have z2: "tape (advance_by 1 (advance_by 1 g)) (pos (advance_by 1 (advance_by 1 g))) mod 2 ^ 53 = 0"
    by (simp only: p2 advance_by_simps(2) z(2))
  have p3: "pos (advance_by 1 (advance_by 1 (advance_by 1 g))) = pos g + 3"
    by simp
  have p4: "pos (advance_by 1 (advance_by 1 (advance_by 1 (advance_by 1 g)))) = pos g + 4"
    by simp
  have z4: "tape (advance_by 1 (advance_by 1 (advance_by 1 (advance_by 1 g))))
              (pos (advance_by 1 (advance_by 1 (advance_by 1 (advance_by 1 g))))) mod 2 ^ 53 = 0"
    by (simp only: p4 advance_by_simps(2) z(3))
  show ?thesis
    unfolding build_record_fp_def post_gbind Let_def
    apply (rule choice_exact, simp add: CATEGORIES_def)
    apply (rule pick_severity_zero_in, rule category_drawn, rule z1)
    apply (rule pick_status_zero_in, simp add: SEVERITIES_def, rule z2)
    apply (rule detected_at_fn_exact)
    apply (rule random_zero_in, rule z4)
    apply (rule false_positive_low)
    apply (simp (no_asm) only: zero_less_low p3 advance_by_simps(2))
    apply (rule acknowledged_and_resolved_draws, simp add: SEVERITIES_def, simp add: STATUSES_def)
    apply (simp (no_asm) only: prod.case post_gbind)
    apply (rule choose_title_in, rule category_drawn)
    apply (rule choose_location_in, rule category_drawn)
    apply (rule choose_description_in, rule category_drawn)
    apply (rule choose_impact_eq, rule category_drawn)
    apply (rule root_cause_fn_draws)
    apply (rule sensor_measurement_fn_in, rule category_drawn, simp add: SEVERITIES_def)
    apply (simp (no_asm) only: post_ret)
    apply (rule P)
    apply (simp_all add: status_draws_simps)
    done
qed

subsection \<open>The draws of a record\<close>


lemma postD:
  assumes "post m g P"
  shows "\<exists>a g'. m g = Inr (a, g') \<and> P a g'"
  using assms by (auto simp: post_def split: sum.splits)

lemma draws_of_bounds:
  assumes "status r \<in> set STATUSES"
  shows "10 \<le> draws_of r fp \<and> draws_of r fp \<le> 14"
  using STATUSES_cases[OF assms]
  by (elim disjE) (simp_all add: draws_of_def status_draws_simps payload_draws_def)

text \<open>
  Claim C9, as it holds. \<^verbatim>\<open>_build_record\<close> returns a record from every state of the generator
  and leaves the generator advanced by \<open>draws_of\<close> draws: nine, and one more for the
  acknowledgement of a status that is not open, one more for the resolution of a resolved
  status, one more for the root cause of a record that is not a false positive, and one or
  two for the payload, by the category. The count lies between 10 and 14; it is not the same
  for every record.
\<close>

theorem draws_per_record:
  "\<exists>r false_positive g'.
     build_record_fp now index g = Inr ((r, false_positive), g') \<and>
     build_record now index g = Inr (r, g') \<and>
     tape g' = tape g \<and> pos g' = pos g + draws_of r false_positive \<and>
     10 \<le> draws_of r false_positive \<and> draws_of r false_positive \<le> 14"
proof -
  have "post (build_record_fp now index) g
          (\<lambda>(r, fp) g'. g' = advance_by (draws_of r fp) g \<and> status r \<in> set STATUSES)"
    by (rule build_record_fp_in) simp
  from postD[OF this] obtain r fp g' where
    b: "build_record_fp now index g = Inr ((r, fp), g')"
    and g': "g' = advance_by (draws_of r fp) g" and st: "status r \<in> set STATUSES"
    by auto
  from b have "build_record now index g = Inr (r, g')"
    by (simp add: build_record_fst)
  moreover have "tape g' = tape g" "pos g' = pos g + draws_of r fp"
    by (simp_all add: g')
  ultimately show ?thesis using b draws_of_bounds[OF st] by blast
qed

lemma zero_record:
  assumes "tape g (pos g + 1) mod 2 ^ 53 = 0" "tape g (pos g + 2) mod 2 ^ 53 = 0"
      "tape g (pos g + 4) mod 2 ^ 53 = 0"
  shows "\<exists>r g'. build_record_fp now index g = Inr ((r, True), g') \<and>
           category r = CATEGORIES ! (tape g (pos g) mod length CATEGORIES) \<and>
           status r = ''open'' \<and>
           detected_at r = now - minutes (int (tape g (pos g + 3) mod 129601) + index * 3) \<and>
           g' = advance_by (9 + payload_draws (category r)) g"
proof -
  have "post (build_record_fp now index) g
          (\<lambda>x g'. snd x \<and> category (fst x) = CATEGORIES ! (tape g (pos g) mod length CATEGORIES) \<and>
           status (fst x) = ''open'' \<and>
           detected_at (fst x) = now - minutes (int (tape g (pos g + 3) mod 129601) + index * 3) \<and>
           g' = advance_by (9 + payload_draws (category (fst x))) g)"
    by (rule build_record_fp_zero[OF assms]) simp
  from postD[OF this] show ?thesis by force
qed

text \<open>
  Claim C9 as the specification states it fails: from a generator that draws only zeros the
  record is a Traffic record and takes eleven draws; from one whose first draw is 2 and
  whose other draws are zeros it is a Public Safety record and takes ten.
\<close>

theorem draws_differ:
  "(\<exists>r fp g'. build_record_fp 0 0 \<lparr>tape = (\<lambda>i. 0), pos = 0\<rparr> = Inr ((r, fp), g') \<and>
       category r = ''Traffic'' \<and> pos g' = 11) \<and>
   (\<exists>r fp g'. build_record_fp 0 0 \<lparr>tape = (\<lambda>i. if i = 0 then 2 else 0), pos = 0\<rparr> = Inr ((r, fp), g') \<and>
       category r = ''Public Safety'' \<and> pos g' = 10)"
proof
  let ?g = "\<lparr>tape = (\<lambda>i::nat. 0::nat), pos = 0\<rparr>"
  from zero_record[of ?g 0 0]
  obtain r g' where b: "build_record_fp 0 0 ?g = Inr ((r, True), g')"
    and c: "category r = CATEGORIES ! (0 mod length CATEGORIES)"
    and g: "g' = advance_by (9 + payload_draws (category r)) ?g"
    by auto
  from c have t: "category r = ''Traffic''" by (simp add: CATEGORIES_def)
  have "pos g' = 11" unfolding g t by (simp add: payload_draws_simps)
  with b t show "\<exists>r fp g'. build_record_fp 0 0 ?g = Inr ((r, fp), g') \<and>
       category r = ''Traffic'' \<and> pos g' = 11" by blast
next
  let ?g = "\<lparr>tape = (\<lambda>i::nat. if i = 0 then 2 else 0 :: nat), pos = 0\<rparr>"
  from zero_record[of ?g 0 0]
  obtain r g' where b: "build_record_fp 0 0 ?g = Inr ((r, True), g')"
    and c: "category r = CATEGORIES ! (2 mod length CATEGORIES)"
    and g: "g' = advance_by (9 + payload_draws (category r)) ?g"
    by auto
  from c have t: "category r = ''Public Safety''" by (simp add: CATEGORIES_def)
  have "pos g' = 10" unfolding g t by (simp add: payload_draws_simps)
  with b t show "\<exists>r fp g'. build_record_fp 0 0 ?g = Inr ((r, fp), g') \<and>
       category r = ''Public Safety'' \<and> pos g' = 10" by blast
qed

subsection \<open>The order of the detections\<close>


lemma list_all2_nth_upt:
  assumes "list_all2 Q [0..<n] rs" "i < n"
  shows "Q i (rs ! i)"
  using list_all2_nthD[OF assms(1), of i] assms(2) by simp

lemma detected_at_bounds:
  "\<exists>rs. generate_dataset clock mt n seed = Inr rs \<and>
     list_all2 (\<lambda>i r. clock i - minutes (129600 + 3 * int i) \<le> detected_at r \<and>
                      detected_at r \<le> clock i - minutes (3 * int i)) [0..<nat n] rs"
proof (rule generate_dataset_in, rule build_record_in)
  fix i :: nat and r :: IncidentRecord and off :: int
  assume "detected_at r = clock i - minutes (off + int i * 3)" "0 \<le> off" "off \<le> 129600"
  then show "clock i - minutes (129600 + 3 * int i) \<le> detected_at r \<and>
             detected_at r \<le> clock i - minutes (3 * int i)"
    by (simp add: minutes_def)
qed

text \<open>
  Claim C8, as it holds. The detection of record \<open>i\<close> is the reading of the clock while the
  record is built, less three minutes for each earlier record, less an offset drawn between
  zero and ninety days (129600 minutes). So it lies in a window of ninety days, and a later
  record is detected strictly earlier than an earlier one when the three minutes per record
  between them, less what the clock has advanced, exceed the ninety days. Nearer records may
  come in either order.
\<close>

theorem detected_at_window:
  "\<exists>rs. generate_dataset clock mt n seed = Inr rs \<and> length rs = nat n \<and>
     (\<forall>i<nat n. clock i - minutes (129600 + 3 * int i) \<le> detected_at (rs ! i) \<and>
                detected_at (rs ! i) \<le> clock i - minutes (3 * int i)) \<and>
     (\<forall>i j. i < j \<and> j < nat n \<and>
            clock j - clock i < minutes (3 * (int j - int i) - 129600) \<longrightarrow>
            detected_at (rs ! j) < detected_at (rs ! i))"
proof -
  from detected_at_bounds[of clock mt n seed] obtain rs where
    rs: "generate_dataset clock mt n seed = Inr rs"
    and all: "list_all2 (\<lambda>i r. clock i - minutes (129600 + 3 * int i) \<le> detected_at r \<and>
                      detected_at r \<le> clock i - minutes (3 * int i)) [0..<nat n] rs"
    by blast
  from all have len: "length rs = nat n" by (simp add: list_all2_lengthD[symmetric])
  have w: "clock i - minutes (129600 + 3 * int i) \<le> detected_at (rs ! i) \<and>
           detected_at (rs ! i) \<le> clock i - minutes (3 * int i)" if "i < nat n" for i
    using list_all2_nth_upt[OF all that] .
  have d: "detected_at (rs ! j) < detected_at (rs ! i)"
    if "i < j" "j < nat n" "clock j - clock i < minutes (3 * (int j - int i) - 129600)" for i j
  proof -
    from that have "i < nat n" by simp
    from w[OF this] w[OF that(2)] that(3) show ?thesis by (simp add: minutes_def)
  qed
  from rs len w d show ?thesis by blast
qed

theorem detected_at_window_witness:
  "\<exists>rs. generate_dataset (\<lambda>i. 0) (\<lambda>seed i. 0) 43202 0 = Inr rs \<and>
     detected_at (rs ! 43201) < detected_at (rs ! 0)"
proof -
  from detected_at_window[of "\<lambda>i. 0" "\<lambda>seed i. 0" 43202 0] obtain rs where
    rs: "generate_dataset (\<lambda>i. 0) (\<lambda>seed i. 0) 43202 0 = Inr rs"
    and d: "\<forall>i j. i < j \<and> j < nat 43202 \<and>
            (0::int) - 0 < minutes (3 * (int j - int i) - 129600) \<longrightarrow>
            detected_at (rs ! j) < detected_at (rs ! i)"
    by blast
  from d[rule_format, of 0 43201] have "detected_at (rs ! 43201) < detected_at (rs ! 0)"
    by (simp add: minutes_def)
  with rs show ?thesis by blast
qed

lemma upt_2: "[0..<2] = [0, 1]"
  by (simp add: upt_rec)

lemma build_record_of_fp:
  "build_record_fp now index g = Inr ((r, fp), g') \<Longrightarrow> build_record now index g = Inr (r, g')"
  by (simp add: build_record_fst)

lemma build_all_two:
  assumes "f (clock 0) 0 g = Inr (r0, g1)" "f (clock 1) 1 g1 = Inr (r1, g2)"
  shows "build_all f clock [0, 1] g = Inr ([r0, r1], g2)"
  using assms by (simp add: gbind_def ret_def)

text \<open>
  Claim C8 as the specification states it fails. With a clock that stands still and a
  generator that draws the offset 129600 for the first record and zeros otherwise, the first
  of two records is detected ninety days before the clock's reading and the second three
  minutes before it: the later record has the later detection.
\<close>

theorem detected_at_increases:
  "\<exists>rs. generate_dataset (\<lambda>i. 0) (\<lambda>seed i. if i = 3 then 129600 else 0) 2 0 = Inr rs \<and>
     length rs = 2 \<and> detected_at (rs ! 0) < detected_at (rs ! 1)"
proof -
  let ?T = "\<lambda>i::nat. if i = 3 then 129600 else 0::nat"
  let ?g = "\<lparr>tape = ?T, pos = 0\<rparr>"
  from zero_record[of ?g 0 0]
  obtain r0 g1 where b0: "build_record_fp 0 0 ?g = Inr ((r0, True), g1)"
    and c0: "category r0 = CATEGORIES ! (0 mod length CATEGORIES)"
    and d0: "detected_at r0 = 0 - minutes (int (?T 3 mod 129601) + 0 * 3)"
    and g1: "g1 = advance_by (9 + payload_draws (category r0)) ?g"
    by auto
  from c0 have t: "category r0 = ''Traffic''" by (simp add: CATEGORIES_def)
  have g1': "g1 = \<lparr>tape = ?T, pos = 11\<rparr>"
    unfolding g1 t by (simp add: payload_draws_simps advance_by_def)
  from zero_record[of g1 0 1]
  obtain r1 g2 where b1: "build_record_fp 0 1 g1 = Inr ((r1, True), g2)"
    and d1: "detected_at r1 = 0 - minutes (int (?T 14 mod 129601) + 1 * 3)"
    unfolding g1' by auto
  have a0: "build_record ((\<lambda>i::nat. 0::int) 0) 0 ?g = Inr (r0, g1)"
    using build_record_of_fp[OF b0] by simp
  have a1: "build_record ((\<lambda>i::nat. 0::int) 1) 1 g1 = Inr (r1, g2)"
    using build_record_of_fp[OF b1] by simp
  have "build_all build_record (\<lambda>i. 0) [0, 1] ?g = Inr ([r0, r1], g2)"
    by (rule build_all_two[of build_record "\<lambda>i. 0" ?g r0 g1 r1 g2, OF a0 a1])
  then have "generate_dataset (\<lambda>i. 0) (\<lambda>seed i. if i = 3 then 129600 else 0) 2 0 = Inr [r0, r1]"
    by (simp add: generate_dataset_def Random_def run_def upt_2)
  moreover have "detected_at r0 < detected_at r1"
    unfolding d0 d1 by (simp add: minutes_def)
  ultimately show ?thesis by simp
qed

subsection \<open>A later reading of the clock\<close>


lemma gbind_assoc: "gbind (gbind m f) k = gbind m (\<lambda>a. gbind (f a) k)"
  by (rule ext) (simp add: gbind_def split: sum.splits prod.splits)

lemma gbind_ret: "gbind (ret a) k = k a"
  by (rule ext) (simp add: gbind_def ret_def)

lemma gbind_throw: "gbind (throw e) k = throw e"
  by (rule ext) (simp add: gbind_def throw_def)

lemma gbind_if: "gbind (if c then a else b) k = (if c then gbind a k else gbind b k)"
  by simp

lemma gbind_case_prod:
  "gbind (case p of (a, b) \<Rightarrow> f a b) k = (case p of (a, b) \<Rightarrow> gbind (f a b) k)"
  by (cases p) simp

lemma add_diff_shift: "a + d - m = a - m + (d::int)"
  by simp

lemma detected_at_fn_shift:
  "detected_at_fn (now + d) index = gmap (\<lambda>t. t + d) (detected_at_fn now index)"
  by (simp add: detected_at_fn_def gmap_def gbind_assoc gbind_ret Let_def add_diff_shift)

lemma acknowledged_and_resolved_shift:
  "acknowledged_and_resolved st s (t + d) =
     gmap (\<lambda>(a, r). (map_option (\<lambda>t. t + d) a, map_option (\<lambda>t. t + d) r))
       (acknowledged_and_resolved st s t)"
  by (simp add: acknowledged_and_resolved_def gmap_def gbind_assoc gbind_ret gbind_if
      gbind_case_prod Let_def add.commute add.left_commute cong: if_cong)

lemma sensor_measurement_fn_shift:
  "sensor_measurement_fn c s (t + d) fp =
     gmap (shift_measurement d) (sensor_measurement_fn c s t fp)"
  by (simp add: sensor_measurement_fn_def gmap_def gbind_assoc gbind_ret Let_def
      shift_measurement_def add_diff_shift)

lemma build_record_fp_shift:
  "build_record_fp (now + d) index =
     gmap (\<lambda>(r, fp). (shift_record d r, fp)) (build_record_fp now index)"
  by (simp add: build_record_fp_def detected_at_fn_shift acknowledged_and_resolved_shift
      sensor_measurement_fn_shift gmap_def gbind_assoc gbind_ret gbind_case_prod Let_def
      shift_record_def case_prod_unfold)

lemma build_record_shift:
  "build_record (now + d) index = gmap (shift_record d) (build_record now index)"
  by (simp add: build_record_def build_record_fp_shift gmap_def gbind_assoc gbind_ret
      case_prod_unfold)

subsection \<open>Datasets of another clock and of another size\<close>


lemma build_all_shift:
  assumes "\<And>now d i. f (now + d) i = gmap (h d) (f now i)"
  shows "build_all f (\<lambda>i. clock i + d i) is =
           gmap (\<lambda>rs. map (\<lambda>(i, r). h (d i) r) (zip is rs)) (build_all f clock is)"
proof (induction "is")
  case Nil
  then show ?case by (simp add: gmap_def gbind_ret)
next
  case (Cons i "is")
  show ?case
    unfolding build_all.simps Cons.IH assms
    by (simp add: gmap_def gbind_assoc gbind_ret)
qed

lemma build_all_cong:
  assumes "\<And>i. i \<in> set is \<Longrightarrow> clock i = clock' i"
  shows "build_all f clock is = build_all f clock' is"
  using assms by (induction "is") simp_all

lemma build_all_append:
  "build_all f clock (xs @ ys) =
     gbind (build_all f clock xs) (\<lambda>rs. gbind (build_all f clock ys) (\<lambda>rs'. ret (rs @ rs')))"
proof (induction xs)
  case Nil
  show ?case
    by (rule ext) (simp add: gbind_ret gbind_def ret_def split: sum.splits)
next
  case (Cons x xs)
  show ?case
    unfolding append_Cons build_all.simps Cons.IH
    by (simp add: gbind_assoc gbind_ret)
qed

lemma run_gmap:
  "run g (gmap h m) = (case run g m of Inl e \<Rightarrow> Inl e | Inr a \<Rightarrow> Inr (h a))"
  by (simp add: run_def gmap_def gbind_def ret_def split: sum.splits prod.splits)

lemma generate_dataset_shift:
  "generate_dataset (\<lambda>i. clock i + d i) mt n seed =
     (case generate_dataset clock mt n seed of
        Inl e \<Rightarrow> Inl e
      | Inr rs \<Rightarrow> Inr (map (\<lambda>(i, r). shift_record (d i) r) (zip [0..<nat n] rs)))"
  unfolding generate_dataset_def build_all_shift[of build_record shift_record, OF build_record_shift]
  by (rule run_gmap)

lemma build_record_total: "post (build_record now index) g (\<lambda>r g'. True)"
  by (rule build_record_in) simp

lemma build_all_length:
  "post (build_all build_record clock is) g (\<lambda>rs g'. length rs = length is)"
proof -
  have "post (build_all build_record clock is) g (\<lambda>rs g'. list_all2 (\<lambda>i r. True) is rs)"
    by (rule build_all_in) (rule build_record_total)
  then show ?thesis
    by (rule post_mono) (simp add: list_all2_lengthD[symmetric])
qed

lemma generate_dataset_take:
  assumes "k \<le> n"
  shows "\<exists>rs. generate_dataset clock mt n seed = Inr rs \<and> length rs = nat n \<and>
           generate_dataset clock mt k seed = Inr (take (nat k) rs)"
proof -
  let ?g = "Random mt seed"
  from assms have split: "[0..<nat n] = [0..<nat k] @ [nat k..<nat n]"
    by (metis le_add_diff_inverse nat_mono upt_add_eq_append zero_le)
  from postD[OF build_all_length[of clock "[0..<nat k]" ?g]] obtain rs1 g1 where
    b1: "build_all build_record clock [0..<nat k] ?g = Inr (rs1, g1)" and l1: "length rs1 = nat k"
    by auto
  from postD[OF build_all_length[of clock "[nat k..<nat n]" g1]] obtain rs2 g2 where
    b2: "build_all build_record clock [nat k..<nat n] g1 = Inr (rs2, g2)"
    and l2: "length rs2 = nat n - nat k"
    by auto
  have "build_all build_record clock [0..<nat n] ?g = Inr (rs1 @ rs2, g2)"
    unfolding split build_all_append by (simp add: gbind_def ret_def b1 b2)
  then have n: "generate_dataset clock mt n seed = Inr (rs1 @ rs2)"
    by (simp add: generate_dataset_def run_def)
  from b1 have k: "generate_dataset clock mt k seed = Inr rs1"
    by (simp add: generate_dataset_def run_def)
  from assms l1 l2 have "length (rs1 @ rs2) = nat n" by simp
  with n k l1 show ?thesis by auto
qed

subsection \<open>Determinism and prefixes\<close>


lemma shift_record_detected_at: "detected_at (shift_record d r) = detected_at r + d"
  by (simp add: shift_record_def)

lemma one_record_shift:
  "\<exists>r. generate_dataset (\<lambda>i. c) mt 1 seed = Inr [r] \<and>
       generate_dataset (\<lambda>i. c + d) mt 1 seed = Inr [shift_record d r]"
proof -
  from generate_dataset_take[of 1 1 "\<lambda>i. c" mt seed] obtain rs where
    rs: "generate_dataset (\<lambda>i. c) mt 1 seed = Inr rs" and len: "length rs = 1"
    by auto
  from len obtain r where r: "rs = [r]" by (cases rs) auto
  have "generate_dataset (\<lambda>i. c + d) mt 1 seed = Inr [shift_record d r]"
    unfolding generate_dataset_shift[of "\<lambda>i. c" "\<lambda>i. d" mt 1 seed] rs r
    by simp
  with rs r show ?thesis by blast
qed

text \<open>
  Claim C1, as it holds. The dataset is a function of the size, the seed and the readings of
  the clock, one for each record: \<^verbatim>\<open>_detected_at\<close> starts from \<^verbatim>\<open>datetime.now(UTC)\<close>. Two
  calls with the same size and seed return records that agree in every field but the four
  timestamps, and the timestamps of record \<open>i\<close> of the second call are those of the first
  moved by what the clock read later for record \<open>i\<close>. The two datasets are equal when the
  clock read the same for every record.
\<close>

theorem same_size_seed_and_clock:
  "(\<exists>rs. generate_dataset clock mt n seed = Inr rs \<and> length rs = nat n \<and>
      generate_dataset clock' mt n seed =
        Inr (map (\<lambda>(i, r). shift_record (clock' i - clock i) r) (zip [0..<nat n] rs))) \<and>
   ((\<forall>i<nat n. clock' i = clock i) \<longrightarrow>
      generate_dataset clock' mt n seed = generate_dataset clock mt n seed)"
proof
  from generate_dataset_take[of n n clock mt seed] obtain rs where
    rs: "generate_dataset clock mt n seed = Inr rs" and len: "length rs = nat n"
    by auto
  have "generate_dataset clock' mt n seed =
          Inr (map (\<lambda>(i, r). shift_record (clock' i - clock i) r) (zip [0..<nat n] rs))"
    using generate_dataset_shift[of clock "\<lambda>i. clock' i - clock i" mt n seed]
    by (simp add: rs)
  with rs len
  show "\<exists>rs. generate_dataset clock mt n seed = Inr rs \<and> length rs = nat n \<and>
      generate_dataset clock' mt n seed =
        Inr (map (\<lambda>(i, r). shift_record (clock' i - clock i) r) (zip [0..<nat n] rs))"
    by blast
next
  show "(\<forall>i<nat n. clock' i = clock i) \<longrightarrow>
      generate_dataset clock' mt n seed = generate_dataset clock mt n seed"
  proof
    assume "\<forall>i<nat n. clock' i = clock i"
    then have "build_all build_record clock' [0..<nat n] = build_all build_record clock [0..<nat n]"
      by (intro build_all_cong) simp
    then show "generate_dataset clock' mt n seed = generate_dataset clock mt n seed"
      by (simp add: generate_dataset_def)
  qed
qed

theorem same_size_seed_and_clock_witness:
  "generate_dataset (\<lambda>i. if i < 3 then 0 else 5) (\<lambda>seed i. 0) 3 0 =
   generate_dataset (\<lambda>i. 0) (\<lambda>seed i. 0) 3 0"
  using same_size_seed_and_clock[of "\<lambda>i. 0" "\<lambda>seed i. 0" 3 0 "\<lambda>i. if i < 3 then 0 else 5"]
  by simp

text \<open>
  Claim C1 as the specification states it fails: the size 1 and the seed 0, with a generator
  that draws only zeros, give one dataset when the clock reads 0 and another when it reads a
  minute later.
\<close>

theorem clock_changes_dataset:
  "generate_dataset (\<lambda>i. 0) (\<lambda>seed i. 0) 1 0 \<noteq>
   generate_dataset (\<lambda>i. 60000000) (\<lambda>seed i. 0) 1 0"
proof -
  from one_record_shift[of 0 "\<lambda>seed i. 0" 0 60000000] obtain r where
    "generate_dataset (\<lambda>i. 0) (\<lambda>seed i. 0) 1 0 = Inr [r]"
    "generate_dataset (\<lambda>i. 60000000) (\<lambda>seed i. 0) 1 0 = Inr [shift_record 60000000 r]"
    by auto
  moreover have "shift_record 60000000 r \<noteq> r"
    using shift_record_detected_at[of 60000000 r] by auto
  ultimately show ?thesis by simp
qed




subsection \<open>Outcomes within the range of datetime\<close>


lemma outcome_gbind:
  "outcome (gbind m k) g P Q = outcome m g (\<lambda>a g'. outcome (k a) g' P Q) Q"
  by (simp add: outcome_def gbind_def split: sum.splits)

lemma outcome_ret: "outcome (ret a) g P Q = P a g"
  by (simp add: outcome_def ret_def)

lemma outcome_throw: "outcome (throw e) g P Q = Q e"
  by (simp add: outcome_def throw_def)

lemma outcome_post: "post m g P \<Longrightarrow> outcome m g P Q"
  by (auto simp: outcome_def post_def split: sum.splits)

lemma post_outcome: "outcome m g P (\<lambda>e. False) \<Longrightarrow> post m g P"
  by (auto simp: outcome_def post_def split: sum.splits)

lemma outcome_timedelta_minutes:
  "outcome (timedelta_minutes m) g P Q =
     (if - 1439999998560 \<le> m \<and> m \<le> 1439999999999 then P (minutes m) g else Q OverflowError)"
  by (simp add: timedelta_minutes_def outcome_ret outcome_throw)

lemma outcome_datetime_add:
  "outcome (datetime_add t d) g P Q =
     (if datetime_min \<le> t + d \<and> t + d \<le> datetime_max then P (t + d) g else Q OverflowError)"
  by (simp add: datetime_add_def outcome_ret outcome_throw)

lemma outcome_datetime_sub:
  "outcome (datetime_sub t d) g P Q =
     (if datetime_min \<le> t - d \<and> t - d \<le> datetime_max then P (t - d) g else Q OverflowError)"
  by (simp add: datetime_sub_def outcome_ret outcome_throw)

lemma checked_detected_at_out:
  assumes i: "0 \<le> index"
    and P: "\<And>off. 0 \<le> off \<Longrightarrow> off \<le> 129600 \<Longrightarrow>
              datetime_min \<le> now - minutes (off + index * 3) \<Longrightarrow>
              now - minutes (off + index * 3) \<le> datetime_max \<Longrightarrow>
              P (now - minutes (off + index * 3)) (advance_by 1 g)"
    and Q: "\<not> clock_in_range now index \<Longrightarrow> Q OverflowError"
  shows "outcome (checked_detected_at now index) g P Q"
  unfolding checked_detected_at_def Let_def outcome_gbind
proof (rule outcome_post, rule randint_in)
  show "(0::int) \<le> 90 * 24 * 60" by simp
next
  fix off :: int
  assume off: "0 \<le> off" "off \<le> 90 * 24 * 60"
  show "outcome (timedelta_minutes (off + index * 3)) (advance_by 1 g)
          (\<lambda>a g'. outcome (datetime_sub now a) g' P Q) Q"
  proof (cases "off + index * 3 \<le> 1439999999999 \<and> datetime_min \<le> now - minutes (off + index * 3)
      \<and> now - minutes (off + index * 3) \<le> datetime_max")
    case True
    with off i have "P (now - minutes (off + index * 3)) (advance_by 1 g)"
      by (intro P) simp_all
    with True off i show ?thesis
      by (simp add: outcome_timedelta_minutes outcome_datetime_sub)
  next
    case False
    with off i have "\<not> clock_in_range now index"
      by (auto simp: clock_in_range_def minutes_def datetime_min_def datetime_max_def)
    from Q[OF this] False show ?thesis
      by (auto simp: outcome_timedelta_minutes outcome_datetime_sub)
  qed
qed

lemma outcome_bind_post:
  "post m g (\<lambda>a g'. outcome (k a) g' P Q) \<Longrightarrow> outcome (gbind m k) g P Q"
  unfolding outcome_gbind by (rule outcome_post)

lemma add_minutes_out:
  assumes "0 \<le> m" "m \<le> 1440" "datetime_min \<le> t"
    and "t + minutes m \<le> datetime_max \<Longrightarrow> outcome (k (t + minutes m)) g P Q"
    and "datetime_max < t + minutes m \<Longrightarrow> Q OverflowError"
  shows "outcome (gbind (timedelta_minutes m) (\<lambda>d. gbind (datetime_add t d) k)) g P Q"
proof -
  from assms(1,3) have "datetime_min \<le> t + minutes m" by (simp add: minutes_def)
  with assms show ?thesis
    by (auto simp: outcome_gbind outcome_timedelta_minutes outcome_datetime_add)
qed

lemma sub_minutes_out:
  assumes "0 \<le> m" "m \<le> 1440" "t \<le> datetime_max"
    and "datetime_min \<le> t - minutes m \<Longrightarrow> outcome (k (t - minutes m)) g P Q"
    and "t - minutes m < datetime_min \<Longrightarrow> Q OverflowError"
  shows "outcome (gbind (timedelta_minutes m) (\<lambda>d. gbind (datetime_sub t d) k)) g P Q"
proof -
  from assms(1,3) have "t - minutes m \<le> datetime_max" by (simp add: minutes_def)
  with assms show ?thesis
    by (auto simp: outcome_gbind outcome_timedelta_minutes outcome_datetime_sub)
qed

lemma ack_bounds_le:
  assumes "s \<in> set SEVERITIES"
  shows "\<exists>lo hi. map_of ack_bounds s = Some (lo, hi) \<and> 0 \<le> lo \<and> lo \<le> hi \<and> hi \<le> 360"
  using SEVERITIES_cases[OF assms] by (elim disjE) (simp_all add: ack_bounds_def)

lemma res_bounds_le:
  assumes "s \<in> set SEVERITIES"
  shows "\<exists>lo hi. map_of res_bounds s = Some (lo, hi) \<and> 0 \<le> lo \<and> lo \<le> hi \<and> hi \<le> 1440"
  using SEVERITIES_cases[OF assms] by (elim disjE) (simp_all add: res_bounds_def)

lemma checked_acknowledged_and_resolved_out:
  assumes s: "s \<in> set SEVERITIES" and t: "datetime_min \<le> t"
    and P: "\<And>x g'. P x g'"
    and Q: "\<And>u. datetime_max < u \<Longrightarrow> u \<le> t + minutes 1800 \<Longrightarrow> Q OverflowError"
  shows "outcome (checked_acknowledged_and_resolved st s t) g P Q"
proof (cases "st = ''open''")
  case True
  then show ?thesis by (simp add: checked_acknowledged_and_resolved_def outcome_ret P)
next
  case False
  from ack_bounds_le[OF s] obtain alo ahi where
    ab: "map_of ack_bounds s = Some (alo, ahi)" "0 \<le> alo" "alo \<le> ahi" "ahi \<le> 360" by blast
  from res_bounds_le[OF s] obtain rlo rhi where
    rb: "map_of res_bounds s = Some (rlo, rhi)" "0 \<le> rlo" "rlo \<le> rhi" "rhi \<le> 1440" by blast
  have e: "checked_acknowledged_and_resolved st s t =
      gbind (randint alo ahi) (\<lambda>m.
      gbind (timedelta_minutes m) (\<lambda>d.
      gbind (datetime_add t d) (\<lambda>a.
        if st = ''acknowledged'' then ret (Some a, None)
        else gbind (randint rlo rhi) (\<lambda>m'.
             gbind (timedelta_minutes m') (\<lambda>d'.
             gbind (datetime_add a d') (\<lambda>r. ret (Some a, Some r)))))))"
    using False ab(1) rb(1)
    by (simp add: checked_acknowledged_and_resolved_def getitem_def gbind_ret cong: if_cong)
  show ?thesis
    unfolding e
  proof (rule outcome_bind_post, rule randint_in[OF ab(3)])
    fix m assume m: "alo \<le> m" "m \<le> ahi"
    with ab have m': "0 \<le> m" "m \<le> 1440" "m \<le> 360" by simp_all
    show "outcome (gbind (timedelta_minutes m) (\<lambda>d. gbind (datetime_add t d) (\<lambda>a.
        if st = ''acknowledged'' then ret (Some a, None)
        else gbind (randint rlo rhi) (\<lambda>m'.
             gbind (timedelta_minutes m') (\<lambda>d'.
             gbind (datetime_add a d') (\<lambda>r. ret (Some a, Some r))))))) (advance_by 1 g) P Q"
    proof (rule add_minutes_out[OF m'(1,2) t])
      assume "datetime_max < t + minutes m"
      moreover have "t + minutes m \<le> t + minutes 1800"
        using m'(3) unfolding minutes_def by linarith
      ultimately show "Q OverflowError" by (rule Q)
    next
      assume "t + minutes m \<le> datetime_max"
      show "outcome (if st = ''acknowledged'' then ret (Some (t + minutes m), None)
        else gbind (randint rlo rhi) (\<lambda>m'.
             gbind (timedelta_minutes m') (\<lambda>d'.
             gbind (datetime_add (t + minutes m) d') (\<lambda>r. ret (Some (t + minutes m), Some r)))))
             (advance_by 1 g) P Q"
      proof (cases "st = ''acknowledged''")
        case True
        then show ?thesis by (simp add: outcome_ret P)
      next
        case no: False
        have "outcome (gbind (randint rlo rhi) (\<lambda>m'.
             gbind (timedelta_minutes m') (\<lambda>d'.
             gbind (datetime_add (t + minutes m) d') (\<lambda>r. ret (Some (t + minutes m), Some r)))))
             (advance_by 1 g) P Q"
        proof (rule outcome_bind_post, rule randint_in[OF rb(3)])
          fix k assume k: "rlo \<le> k" "k \<le> rhi"
          with rb have k': "0 \<le> k" "k \<le> 1440" by simp_all
          from t m'(1) have t': "datetime_min \<le> t + minutes m" by (simp add: minutes_def)
          show "outcome (gbind (timedelta_minutes k) (\<lambda>d'.
             gbind (datetime_add (t + minutes m) d') (\<lambda>r. ret (Some (t + minutes m), Some r))))
             (advance_by 1 (advance_by 1 g)) P Q"
          proof (rule add_minutes_out[OF k' t'])
            assume "datetime_max < t + minutes m + minutes k"
            moreover have "t + minutes m + minutes k \<le> t + minutes 1800"
              using m'(3) k'(2) unfolding minutes_def by linarith
            ultimately show "Q OverflowError" by (rule Q)
          next
            show "outcome (ret (Some (t + minutes m), Some (t + minutes m + minutes k)))
                    (advance_by 1 (advance_by 1 g)) P Q"
              by (simp add: outcome_ret P)
          qed
        qed
        with no show ?thesis by simp
      qed
    qed
  qed
qed

subsection \<open>The record within the range of datetime\<close>


lemma checked_sensor_measurement_out:
  assumes c: "c \<in> set CATEGORIES" and s: "s \<in> set SEVERITIES" and t: "t \<le> datetime_max"
    and P: "\<And>x g'. P x g'"
    and Q: "\<And>u. u < datetime_min \<Longrightarrow> t - minutes 12 \<le> u \<Longrightarrow> Q OverflowError"
  shows "outcome (checked_sensor_measurement c s t fp) g P Q"
proof -
  from sensor_ids_of[OF c] obtain ids where ids: "map_of SENSOR_IDS c = Some ids" "ids \<noteq> []"
    by blast
  have e: "getitem SENSOR_IDS c = ret ids" by (simp add: getitem_def ids(1))
  show ?thesis
    unfolding checked_sensor_measurement_def e gbind_ret
  proof (rule outcome_bind_post, rule choice_in[OF ids(2)], rule outcome_bind_post,
      rule sensor_status_in, rule outcome_bind_post, rule randint_in, simp)
    fix x y :: string and k :: int
    assume k: "1 \<le> k" "k \<le> 12"
    then have k': "0 \<le> k" "k \<le> 1440" by simp_all
    show "outcome (gbind (timedelta_minutes k) (\<lambda>d. gbind (datetime_sub t d) (\<lambda>captured_at.
            gbind (sensor_payload c s) (\<lambda>payload.
              ret \<lparr>sm_sensor_id = x, sm_type = c, sm_status = y,
                   sm_captured_at = captured_at, sm_payload = payload\<rparr>))))
            (advance_by 1 (advance_by 1 (advance_by 1 g))) P Q"
    proof (rule sub_minutes_out[OF k' t])
      assume "t - minutes k < datetime_min"
      moreover have "t - minutes 12 \<le> t - minutes k"
        using k(2) unfolding minutes_def by linarith
      ultimately show "Q OverflowError" by (rule Q)
    next
      show "outcome (gbind (sensor_payload c s) (\<lambda>payload.
              ret \<lparr>sm_sensor_id = x, sm_type = c, sm_status = y,
                   sm_captured_at = t - minutes k, sm_payload = payload\<rparr>))
              (advance_by 1 (advance_by 1 (advance_by 1 g))) P Q"
        by (rule outcome_bind_post, rule sensor_payload_in[OF c s]) (simp add: outcome_ret P)
    qed
  qed
qed

lemma checked_acknowledged_and_resolved_pair:
  assumes s: "s \<in> set SEVERITIES" and t: "datetime_min \<le> t"
    and P: "\<And>a r g'. P (a, r) g'"
    and Q: "\<And>u. datetime_max < u \<Longrightarrow> u \<le> t + minutes 1800 \<Longrightarrow> Q OverflowError"
  shows "outcome (checked_acknowledged_and_resolved st s t) g P Q"
proof (rule checked_acknowledged_and_resolved_out[OF s t])
  fix x :: "int option \<times> int option" and g'
  show "P x g'" by (cases x) (simp add: P)
next
  fix u assume "datetime_max < u" "u \<le> t + minutes 1800"
  then show "Q OverflowError" by (rule Q)
qed

lemma late_not_in_range:
  assumes "0 \<le> index" "0 \<le> off" "datetime_max < u"
    "u \<le> now - minutes (off + index * 3) + minutes 1800"
  shows "\<not> clock_in_range now index"
  using assms by (auto simp: clock_in_range_def minutes_def)

lemma early_not_in_range:
  assumes "off \<le> 129600" "u < datetime_min"
    "now - minutes (off + index * 3) - minutes 12 \<le> u"
  shows "\<not> clock_in_range now index"
  using assms by (auto simp: clock_in_range_def minutes_def)

lemma checked_build_record_out:
  assumes i: "0 \<le> index"
    and P: "\<And>r g' off. record_id r = 1000 + index \<Longrightarrow> category r \<in> set CATEGORIES \<Longrightarrow>
              detected_at r = now - minutes (off + index * 3) \<Longrightarrow> 0 \<le> off \<Longrightarrow> off \<le> 129600 \<Longrightarrow>
              datetime_min \<le> detected_at r \<Longrightarrow> P r g'"
    and Q: "\<not> clock_in_range now index \<Longrightarrow> Q OverflowError"
  shows "outcome (checked_build_record now index) g P Q"
  unfolding checked_build_record_def outcome_gbind Let_def
  apply (rule outcome_post, rule choice_in, simp add: CATEGORIES_def)
  apply (rule outcome_post, rule pick_severity_in, assumption)
  apply (rule outcome_post, rule pick_status_in, assumption)
  apply (rule checked_detected_at_out, rule i)
   prefer 2 apply (erule Q)
  apply (rule outcome_post, rule random_in)
  apply (rule outcome_post, rule false_positive_probability_in, assumption)
  apply (rule checked_acknowledged_and_resolved_pair, assumption, assumption)
   prefer 2 apply (rule Q, rule late_not_in_range[OF i], assumption+)
  apply (simp (no_asm) only: prod.case outcome_gbind)
  apply (rule outcome_post, rule choose_title_in, assumption)
  apply (rule outcome_post, rule choose_location_in, assumption)
  apply (rule outcome_post, rule choose_description_in, assumption)
  apply (rule outcome_post, rule choose_impact_eq, assumption)
  apply (rule outcome_post, rule root_cause_fn_draws)
  apply (rule checked_sensor_measurement_out, assumption, assumption, assumption)
   prefer 2 apply (rule Q, rule early_not_in_range, assumption+)
  apply (simp (no_asm) only: outcome_ret)
  subgoal for x s st off
    by (rule P[where off = off]) simp_all
  done

subsection \<open>The checked functions agree with the exact ones in range\<close>


lemma gbind_eq_post:
  assumes "m g = m' g" and "post m' g (\<lambda>a g'. k a g' = k' a g')"
  shows "gbind m k g = gbind m' k' g"
  using assms by (auto simp: post_def gbind_def split: sum.splits)

lemma checked_detected_at_eq:
  assumes "clock_in_range now index" "0 \<le> index"
  shows "checked_detected_at now index g = detected_at_fn now index g"
  unfolding checked_detected_at_def detected_at_fn_def Let_def
proof (rule gbind_eq_post, rule refl, rule randint_in)
  show "(0::int) \<le> 90 * 24 * 60" by simp
next
  fix off :: int assume "0 \<le> off" "off \<le> 90 * 24 * 60"
  with assms show "gbind (timedelta_minutes (off + index * 3)) (datetime_sub now) (advance_by 1 g) =
      ret (now - minutes (off + index * 3)) (advance_by 1 g)"
    by (auto simp: timedelta_minutes_def datetime_sub_def gbind_ret clock_in_range_def minutes_def
        datetime_min_def datetime_max_def)
qed

lemma add_minutes_eq:
  assumes "0 \<le> m" "m \<le> 1440" "datetime_min \<le> t" "t + minutes m \<le> datetime_max"
  shows "gbind (timedelta_minutes m) (\<lambda>d. gbind (datetime_add t d) k) g = k (t + minutes m) g"
  using assms by (simp add: timedelta_minutes_def datetime_add_def gbind_ret minutes_def)

lemma sub_minutes_eq:
  assumes "0 \<le> m" "m \<le> 1440" "datetime_min \<le> t - minutes m" "t \<le> datetime_max"
  shows "gbind (timedelta_minutes m) (\<lambda>d. gbind (datetime_sub t d) k) g = k (t - minutes m) g"
  using assms by (simp add: timedelta_minutes_def datetime_sub_def gbind_ret minutes_def)

lemma checked_acknowledged_and_resolved_eq:
  assumes s: "s \<in> set SEVERITIES" and t: "datetime_min \<le> t" "t + minutes 1800 \<le> datetime_max"
  shows "checked_acknowledged_and_resolved st s t g = acknowledged_and_resolved st s t g"
proof (cases "st = ''open''")
  case True
  then show ?thesis
    by (simp add: checked_acknowledged_and_resolved_def acknowledged_and_resolved_def)
next
  case False
  from ack_bounds_le[OF s] obtain alo ahi where
    ab: "map_of ack_bounds s = Some (alo, ahi)" "0 \<le> alo" "alo \<le> ahi" "ahi \<le> 360" by blast
  from res_bounds_le[OF s] obtain rlo rhi where
    rb: "map_of res_bounds s = Some (rlo, rhi)" "0 \<le> rlo" "rlo \<le> rhi" "rhi \<le> 1440" by blast
  have e: "checked_acknowledged_and_resolved st s t =
      gbind (randint alo ahi) (\<lambda>m.
      gbind (timedelta_minutes m) (\<lambda>d.
      gbind (datetime_add t d) (\<lambda>a.
        if st = ''acknowledged'' then ret (Some a, None)
        else gbind (randint rlo rhi) (\<lambda>m'.
             gbind (timedelta_minutes m') (\<lambda>d'.
             gbind (datetime_add a d') (\<lambda>r. ret (Some a, Some r)))))))"
    using False ab(1) rb(1)
    by (simp add: checked_acknowledged_and_resolved_def getitem_def gbind_ret cong: if_cong)
  have e': "acknowledged_and_resolved st s t =
      gbind (randint alo ahi) (\<lambda>m.
        if st = ''acknowledged'' then ret (Some (t + minutes m), None)
        else gbind (randint rlo rhi) (\<lambda>m'.
               ret (Some (t + minutes m), Some (t + minutes m + minutes m'))))"
    using False ab(1) rb(1)
    by (simp add: acknowledged_and_resolved_def getitem_def gbind_ret Let_def cong: if_cong)
  show ?thesis
    unfolding e e'
  proof (rule gbind_eq_post, rule refl, rule randint_in[OF ab(3)])
    fix m assume m: "alo \<le> m" "m \<le> ahi"
    with ab have m': "0 \<le> m" "m \<le> 1440" "m \<le> 360" by simp_all
    from t m'(3) have in1: "t + minutes m \<le> datetime_max"
      by (simp add: minutes_def)
    from t m'(1) have in0: "datetime_min \<le> t + minutes m"
      by (simp add: minutes_def)
    have inner: "gbind (randint rlo rhi) (\<lambda>m'.
             gbind (timedelta_minutes m') (\<lambda>d'.
             gbind (datetime_add (t + minutes m) d') (\<lambda>r. ret (Some (t + minutes m), Some r))))
           (advance_by 1 g) =
          gbind (randint rlo rhi) (\<lambda>m'.
               ret (Some (t + minutes m), Some (t + minutes m + minutes m'))) (advance_by 1 g)"
    proof (rule gbind_eq_post, rule refl, rule randint_in[OF rb(3)])
      fix k assume k: "rlo \<le> k" "k \<le> rhi"
      with rb have k': "0 \<le> k" "k \<le> 1440" by simp_all
      from t m'(3) k'(2) have "t + minutes m + minutes k \<le> datetime_max"
        by (simp add: minutes_def)
      from add_minutes_eq[OF k' in0 this]
      show "gbind (timedelta_minutes k) (\<lambda>d'.
             gbind (datetime_add (t + minutes m) d') (\<lambda>r. ret (Some (t + minutes m), Some r)))
             (advance_by 1 (advance_by 1 g)) =
           ret (Some (t + minutes m), Some (t + minutes m + minutes k)) (advance_by 1 (advance_by 1 g))" .
    qed
    show "gbind (timedelta_minutes m) (\<lambda>d. gbind (datetime_add t d) (\<lambda>a.
        if st = ''acknowledged'' then ret (Some a, None)
        else gbind (randint rlo rhi) (\<lambda>m'.
             gbind (timedelta_minutes m') (\<lambda>d'.
             gbind (datetime_add a d') (\<lambda>r. ret (Some a, Some r)))))) (advance_by 1 g) =
      (if st = ''acknowledged'' then ret (Some (t + minutes m), None)
        else gbind (randint rlo rhi) (\<lambda>m'.
               ret (Some (t + minutes m), Some (t + minutes m + minutes m')))) (advance_by 1 g)"
      unfolding add_minutes_eq[OF m'(1,2) t(1) in1] using inner by simp
  qed
qed

lemma checked_sensor_measurement_eq:
  assumes c: "c \<in> set CATEGORIES" and t: "datetime_min + minutes 12 \<le> t" "t \<le> datetime_max"
  shows "checked_sensor_measurement c s t fp g = sensor_measurement_fn c s t fp g"
proof -
  from sensor_ids_of[OF c] obtain ids where ids: "map_of SENSOR_IDS c = Some ids" "ids \<noteq> []"
    by blast
  have e: "getitem SENSOR_IDS c = ret ids" by (simp add: getitem_def ids(1))
  show ?thesis
    unfolding checked_sensor_measurement_def sensor_measurement_fn_def e gbind_ret Let_def
  proof (rule gbind_eq_post, rule refl, rule choice_in[OF ids(2)], rule gbind_eq_post, rule refl,
      rule sensor_status_in, rule gbind_eq_post, rule refl, rule randint_in, simp)
    fix x y :: string and k :: int
    assume k: "1 \<le> k" "k \<le> 12"
    then have k': "0 \<le> k" "k \<le> 1440" by simp_all
    from t k(2) have "datetime_min \<le> t - minutes k" by (simp add: minutes_def)
    from sub_minutes_eq[OF k' this t(2)]
    show "gbind (timedelta_minutes k) (\<lambda>d. gbind (datetime_sub t d) (\<lambda>captured_at.
            gbind (sensor_payload c s) (\<lambda>payload.
              ret \<lparr>sm_sensor_id = x, sm_type = c, sm_status = y,
                   sm_captured_at = captured_at, sm_payload = payload\<rparr>)))
            (advance_by 1 (advance_by 1 (advance_by 1 g))) =
          gbind (sensor_payload c s) (\<lambda>payload.
              ret \<lparr>sm_sensor_id = x, sm_type = c, sm_status = y,
                   sm_captured_at = t - minutes k, sm_payload = payload\<rparr>)
            (advance_by 1 (advance_by 1 (advance_by 1 g)))" .
  qed
qed

subsection \<open>The checked record agrees with the exact one in range\<close>


lemma detected_in_range:
  assumes "clock_in_range now index" "0 \<le> index" "0 \<le> off" "off \<le> 129600"
  shows "datetime_min \<le> now - minutes (off + index * 3)"
    and "datetime_min + minutes 12 \<le> now - minutes (off + index * 3)"
    and "now - minutes (off + index * 3) \<le> datetime_max"
    and "now - minutes (off + index * 3) + minutes 1800 \<le> datetime_max"
  using assms by (auto simp: clock_in_range_def minutes_def)

lemma checked_build_record_eq:
  assumes r: "clock_in_range now index" and i: "0 \<le> index"
  shows "checked_build_record now index g = build_record now index g"
  apply (simp (no_asm) only: checked_build_record_def build_record_def build_record_fp_def
      gbind_assoc gbind_ret Let_def gbind_case_prod prod.case)
  apply (rule gbind_eq_post, rule refl, rule choice_in, simp add: CATEGORIES_def)
  apply (rule gbind_eq_post, rule refl, rule pick_severity_in, assumption)
  apply (rule gbind_eq_post, rule refl, rule pick_status_in, assumption)
  apply (rule gbind_eq_post, rule checked_detected_at_eq[OF r i], rule detected_at_fn_in)
  apply (rule gbind_eq_post, rule refl, rule random_in)
  apply (rule gbind_eq_post, rule refl, rule false_positive_probability_in, assumption)
  apply (rule gbind_eq_post, rule checked_acknowledged_and_resolved_eq, assumption,
      rule detected_in_range(1)[OF r i], assumption, assumption,
      rule detected_in_range(4)[OF r i], assumption, assumption)
  apply (rule acknowledged_and_resolved_draws, assumption, assumption)
  apply (simp (no_asm) only: prod.case)
  apply (rule gbind_eq_post, rule refl, rule choose_title_in, assumption)
  apply (rule gbind_eq_post, rule refl, rule choose_location_in, assumption)
  apply (rule gbind_eq_post, rule refl, rule choose_description_in, assumption)
  apply (rule gbind_eq_post, rule refl, rule choose_impact_eq, assumption)
  apply (rule gbind_eq_post, rule refl, rule root_cause_fn_draws)
  apply (rule gbind_eq_post, rule checked_sensor_measurement_eq, assumption,
      rule detected_in_range(2)[OF r i], assumption, assumption,
      rule detected_in_range(3)[OF r i], assumption, assumption)
  apply (rule sensor_measurement_fn_in, assumption, assumption)
  apply (rule refl)
  done

subsection \<open>Datasets within and beyond the range of datetime\<close>


lemma build_all_eq:
  assumes "\<And>i g. i \<in> set is \<Longrightarrow> f (clock i) (int i) g = f' (clock i) (int i) g"
  shows "build_all f clock is g = build_all f' clock is g"
  using assms
proof (induction "is" arbitrary: g)
  case Nil
  show ?case by simp
next
  case (Cons i "is")
  have hd: "f (clock i) (int i) g = f' (clock i) (int i) g" by (rule Cons.prems) simp
  have tl: "build_all f clock is g' = build_all f' clock is g'" for g'
    by (rule Cons.IH) (rule Cons.prems, simp)
  show ?case unfolding build_all_Cons hd tl ..
qed

lemma checked_generate_dataset_eq:
  assumes "\<forall>i<nat n. clock_in_range (clock i) (int i)"
  shows "checked_generate_dataset clock mt n seed = generate_dataset clock mt n seed"
proof -
  have "build_all checked_build_record clock [0..<nat n] (Random mt seed) =
        build_all build_record clock [0..<nat n] (Random mt seed)"
    by (rule build_all_eq, rule checked_build_record_eq) (use assms in simp_all)
  then show ?thesis by (simp add: checked_generate_dataset_def generate_dataset_def run_def)
qed

lemma checked_build_record_overflow_only:
  assumes "checked_build_record now (int i) g = Inl e"
  shows "e = OverflowError"
proof -
  have "outcome (checked_build_record now (int i)) g (\<lambda>r g'. True) (\<lambda>e. e = OverflowError)"
    by (rule checked_build_record_out) simp_all
  with assms show ?thesis by (simp add: outcome_def)
qed

lemma checked_build_record_overflow:
  assumes "now - minutes (int i * 3) < datetime_min"
  shows "checked_build_record now (int i) g = Inl OverflowError"
proof -
  have "outcome (checked_build_record now (int i)) g (\<lambda>r g'. False) (\<lambda>e. e = OverflowError)"
  proof (rule checked_build_record_out)
    fix r :: IncidentRecord and off :: int
    assume "detected_at r = now - minutes (off + int i * 3)" "0 \<le> off"
      "datetime_min \<le> detected_at r"
    with assms show False by (simp add: minutes_def)
  qed simp_all
  then show ?thesis by (auto simp: outcome_def split: sum.splits)
qed

lemma build_all_fails:
  assumes "i \<in> set is" and "\<And>g. f (clock i) (int i) g = Inl e"
    and "\<And>j g e'. f (clock j) (int j) g = Inl e' \<Longrightarrow> e' = e"
  shows "build_all f clock is g = Inl e"
  using assms(1)
proof (induction "is" arbitrary: g)
  case Nil
  then show ?case by simp
next
  case (Cons j "is")
  show ?case
  proof (cases "f (clock j) (int j) g")
    case (Inl e')
    with assms(3) have "e' = e" by blast
    with Inl show ?thesis unfolding build_all_Cons by simp
  next
    case (Inr x)
    with assms(2) have "j \<noteq> i" by auto
    with Cons.prems have "i \<in> set is" by simp
    from Cons.IH[OF this] Inr show ?thesis unfolding build_all_Cons
      by (simp split: prod.splits)
  qed
qed

lemma checked_generate_dataset_overflow:
  assumes "i < nat n" and "clock i - minutes (int i * 3) < datetime_min"
  shows "checked_generate_dataset clock mt n seed = Inl OverflowError"
proof -
  have "build_all checked_build_record clock [0..<nat n] (Random mt seed) = Inl OverflowError"
  proof (rule build_all_fails[of i])
    show "i \<in> set [0..<nat n]" using assms(1) by simp
    show "checked_build_record (clock i) (int i) g = Inl OverflowError" for g
      by (rule checked_build_record_overflow[OF assms(2)])
    show "e' = OverflowError" if "checked_build_record (clock j) (int j) g = Inl e'" for j g e'
      using that by (rule checked_build_record_overflow_only)
  qed
  then show ?thesis by (simp add: checked_generate_dataset_def run_def)
qed

subsection \<open>The sizes that return\<close>


text \<open>
  Claim C5, as it holds. \<^verbatim>\<open>generate_dataset\<close> returns the records the size asks for as long
  as no timestamp leaves the range of \<^verbatim>\<open>datetime\<close>, which holds when the clock reads, for
  each index below the size, at least 129612 minutes and three minutes for each earlier
  record after the year 1 began, and at least 1800 minutes before the year 9999 ends. Then it
  returns what the functions with exact timestamps return: as many records as the size says,
  with the identifiers 1000, 1001, ... in this order, no two equal, and a category of
  \<^verbatim>\<open>CATEGORIES\<close> each; the size 0 gives the empty list at any clock, and the size 5 with the
  seed 20241202 five records with the identifiers 1000 to 1004. When for some index below
  the size three minutes for each earlier record lead from the reading of the clock to before
  the year 1, the call raises \<^verbatim>\<open>OverflowError\<close> and returns no record.
\<close>

theorem checked_generate_dataset_ids:
  "((\<forall>i<nat n. clock_in_range (clock i) (int i)) \<longrightarrow>
      (\<exists>rs. checked_generate_dataset clock mt n seed = Inr rs \<and>
         generate_dataset clock mt n seed = Inr rs \<and> length rs = nat n \<and>
         map record_id rs = map (\<lambda>i. 1000 + int i) [0..<nat n] \<and>
         distinct (map record_id rs) \<and>
         list_all (\<lambda>r. category r \<in> set CATEGORIES) rs)) \<and>
   checked_generate_dataset clock mt 0 seed = Inr [] \<and>
   ((\<forall>i<5. clock_in_range (clock i) (int i)) \<longrightarrow>
      (\<exists>rs. checked_generate_dataset clock mt 5 20241202 = Inr rs \<and> length rs = 5 \<and>
         map record_id rs = [1000, 1001, 1002, 1003, 1004])) \<and>
   ((\<exists>i<nat n. clock i - minutes (int i * 3) < datetime_min) \<longrightarrow>
      checked_generate_dataset clock mt n seed = Inl OverflowError)"
proof (intro conjI impI)
  assume h: "\<forall>i<nat n. clock_in_range (clock i) (int i)"
  from exact_dataset_ids[of clock mt n seed] checked_generate_dataset_eq[OF h, of mt seed]
  show "\<exists>rs. checked_generate_dataset clock mt n seed = Inr rs \<and>
         generate_dataset clock mt n seed = Inr rs \<and> length rs = nat n \<and>
         map record_id rs = map (\<lambda>i. 1000 + int i) [0..<nat n] \<and>
         distinct (map record_id rs) \<and>
         list_all (\<lambda>r. category r \<in> set CATEGORIES) rs"
    by auto
next
  show "checked_generate_dataset clock mt 0 seed = Inr []"
    by (simp add: checked_generate_dataset_def run_def ret_def)
next
  assume "\<forall>i<5. clock_in_range (clock i) (int i)"
  then have h: "\<forall>i<nat 5. clock_in_range (clock i) (int i)" by simp
  from exact_dataset_ids[of clock mt 5 20241202] checked_generate_dataset_eq[OF h, of mt 20241202]
  show "\<exists>rs. checked_generate_dataset clock mt 5 20241202 = Inr rs \<and> length rs = 5 \<and>
         map record_id rs = [1000, 1001, 1002, 1003, 1004]"
    by auto
next
  assume "\<exists>i<nat n. clock i - minutes (int i * 3) < datetime_min"
  then obtain i where "i < nat n" "clock i - minutes (int i * 3) < datetime_min" by blast
  then show "checked_generate_dataset clock mt n seed = Inl OverflowError"
    by (rule checked_generate_dataset_overflow)
qed

theorem checked_generate_dataset_ids_witness:
  "\<exists>rs. checked_generate_dataset (\<lambda>i. 1733097600000000) (\<lambda>seed i. 0) 5 20241202 = Inr rs \<and>
      length rs = 5 \<and> map record_id rs = [1000, 1001, 1002, 1003, 1004]"
proof -
  have "\<forall>i<5. clock_in_range ((\<lambda>i::nat. 1733097600000000) i) (int i)"
    by (auto simp: clock_in_range_def minutes_def datetime_min_def datetime_max_def)
  with checked_generate_dataset_ids[of 5 "\<lambda>i. 1733097600000000" "\<lambda>seed i. 0" 20241202]
  show ?thesis by blast
qed

text \<open>
  Claim C5 as the specification states it fails. With the clock at 2024-12-02T00:00:00Z, the
  seed 20241202 and the size 355300001, the last index, 355300000, asks for a detection more
  than 1065900000 minutes before the clock's reading, which is before the year 1: the call
  raises \<^verbatim>\<open>OverflowError\<close> instead of returning 355300001 records.
\<close>

theorem large_size_overflows:
  "checked_generate_dataset (\<lambda>i. 1733097600000000) (\<lambda>seed i. 0) 355300001 20241202
     = Inl OverflowError"
proof (rule checked_generate_dataset_overflow[of 355300000])
  show "(355300000::nat) < nat 355300001" by simp
  show "1733097600000000 - minutes (int 355300000 * 3) < datetime_min"
    by (simp add: minutes_def datetime_min_def)
qed

subsection \<open>The payload in floats\<close>

lemma post_at:
  assumes "post m g P" "m g = Inr (a, g')"
  shows "P a g'"
  using assms by (simp add: post_def)

lemma build_all_one:
  assumes "f (clock 0) 0 g = Inr (r, g')"
  shows "build_all f clock [0] g = Inr ([r], g')"
  using assms by (simp add: gbind_def ret_def)

lemma ph_not_in_bounds: "\<not> in_bounds ''Utilities'' s (''ph'', v)"
  by (simp add: in_bounds_def registered_bounds_def)

text \<open>
  Claim C6, as it holds. In every record of a dataset the payload has the fields of the
  category of the record, and every field other than \<^verbatim>\<open>ph\<close> has bounds in the range table of
  the category at the severity of the record and a value, computed and rounded in floats as
  the payload function does, within these bounds, both ends included. No range table has
  bounds for \<^verbatim>\<open>ph\<close>: its value lies between the literals 6.5 and 8.3 of
  \<^verbatim>\<open>_utilities_payload\<close>, whatever the severity.
\<close>

theorem payload_fields_in_range:
  "\<exists>rs. generate_dataset clock mt n seed = Inr rs \<and> length rs = nat n \<and>
     list_all (\<lambda>r. map fst (sm_payload (sensor_measurement r)) = payload_fields (category r) \<and>
        list_all (field_in_range (category r) (severity r)) (sm_payload (sensor_measurement r))) rs"
  using payload_of_record[of clock mt n seed] by (simp add: payload_ok_def)

text \<open>
  Claim C6 as the specification states it fails. A generator whose first draw is 3 and whose
  other draws are zeros builds a Utilities record; its payload has the field \<^verbatim>\<open>ph\<close>, and
  no range table registers bounds for \<^verbatim>\<open>ph\<close>.
\<close>

theorem ph_without_registered_bounds:
  "\<exists>rs. generate_dataset (\<lambda>i. 0) (\<lambda>seed i. if i = 0 then 3 else 0) 1 0 = Inr rs \<and>
     \<not> list_all (\<lambda>r. list_all (in_bounds (category r) (severity r))
                        (sm_payload (sensor_measurement r))) rs"
proof -
  let ?T = "\<lambda>i::nat. if i = 0 then 3 else 0::nat"
  let ?g = "\<lparr>tape = ?T, pos = 0\<rparr>"
  from zero_record[of ?g 0 0]
  obtain r g' where b: "build_record_fp 0 0 ?g = Inr ((r, True), g')"
    and c: "category r = CATEGORIES ! (3 mod length CATEGORIES)"
    by auto
  from c have u: "category r = ''Utilities''" by (simp add: CATEGORIES_def)
  have "post (build_record_fp 0 0) ?g
          (\<lambda>x g'. payload_ok (category (fst x)) (severity (fst x))
                     (sm_payload (sensor_measurement (fst x))))"
    by (rule build_record_fp_in) simp
  from post_at[OF this b]
  have ok: "payload_ok (category r) (severity r) (sm_payload (sensor_measurement r))" by simp
  then have "map fst (sm_payload (sensor_measurement r)) = [''chlorine_ppm'', ''ph'']"
    by (simp add: payload_ok_def payload_fields_def u)
  then obtain x y where p: "sm_payload (sensor_measurement r) = [(''chlorine_ppm'', x), (''ph'', y)]"
    by (auto simp: map_eq_Cons_conv)
  have no: "\<not> list_all (in_bounds (category r) (severity r)) (sm_payload (sensor_measurement r))"
    unfolding p u by (simp add: ph_not_in_bounds)
  have a0: "build_record ((\<lambda>i::nat. 0::int) 0) 0 ?g = Inr (r, g')"
    using build_record_of_fp[OF b] by simp
  have "build_all build_record (\<lambda>i. 0) [0] ?g = Inr ([r], g')"
    by (rule build_all_one[of build_record "\<lambda>i. 0" ?g r g', OF a0])
  then have "generate_dataset (\<lambda>i. 0) (\<lambda>seed i. if i = 0 then 3 else 0) 1 0 = Inr [r]"
    by (simp add: generate_dataset_def Random_def run_def)
  with no show ?thesis by simp
qed

end
